theory Spec2Isabelle
  imports Complex_Main
begin

section \<open>JSON values as the server receives them\<close>

text \<open>
  Rule trees reach the compiler as parsed JSON (\<open>req.body.rules\<close>, or \<open>JSON.parse\<close> of the
  stored segment). The compiler probes them by property reads, so the model keeps the untyped
  value. \<open>JUndefined\<close> is what reading an absent key yields. An object is its list of
  own key/value pairs; a read takes the first pair with the key. A number is the value
  \<open>JSON.parse\<close> produced (every finite double is a rational).
\<close>

datatype json =
    JUndefined
  | JNull
  | JBool bool
  | JNum rat
  | JStr string
  | JArr "json list"
  | JObj "(string \<times> json) list"

datatype exn = TypeError | SyntaxError | SegmentNotFound | DbError string

text \<open>
  \<open>v.k\<close> for the keys the compiler reads (operator, conditions, field, value, min, max,
  start, end): none of them is a built-in property of a string, number, boolean or array,
  so the read gives \<open>undefined\<close> there. Reading a property of \<open>null\<close> or \<open>undefined\<close>
  throws a TypeError: the callers test \<open>nullish\<close> before they read.
\<close>

fun jsprop :: "json \<Rightarrow> string \<Rightarrow> json" where
  "jsprop (JObj kvs) k = (case map_of kvs k of Some v \<Rightarrow> v | None \<Rightarrow> JUndefined)"
| "jsprop _ k = JUndefined"

fun nullish :: "json \<Rightarrow> bool" where
  "nullish JUndefined = True"
| "nullish JNull = True"
| "nullish _ = False"

text \<open>JavaScript truthiness, as used by \<open>!field\<close>, \<open>!operator\<close> and \<open>filter(Boolean)\<close>.\<close>

fun truthy :: "json \<Rightarrow> bool" where
  "truthy JUndefined = False"
| "truthy JNull = False"
| "truthy (JBool b) = b"
| "truthy (JNum n) = (n \<noteq> 0)"
| "truthy (JStr s) = (s \<noteq> [])"
| "truthy (JArr _) = True"
| "truthy (JObj _) = True"

section \<open>The predicate compiler: buildSegmentQuery (server/utils/segmentUtils.js)\<close>

text \<open>
  A bound parameter is the value pushed onto \<open>params\<close>. \<open>parseFloat\<close> and \<open>parseInt\<close> are kept
  symbolic: the compiler never computes with their results.
\<close>

datatype param = ParseFloat json | ParseInt json | Raw json

text \<open>\<open>Array.prototype.join\<close> on strings.\<close>

fun join :: "string \<Rightarrow> string list \<Rightarrow> string" where
  "join sep [] = []"
| "join sep [s] = s"
| "join sep (s # t # ss) = s @ sep @ join sep (t # ss)"

text \<open>
  The \<open>switch (field)\<close> / \<open>switch (operator)\<close> of processRule (strict equality against string
  literals). The result is the text assigned to \<open>condition\<close> and the values pushed onto
  \<open>params\<close>, in push order. \<open>value.min\<close> and \<open>value.start\<close> throw when \<open>value\<close> is \<open>null\<close>
  (the guard before the switch only excludes \<open>undefined\<close>).
\<close>

definition switchField :: "json \<Rightarrow> json \<Rightarrow> json \<Rightarrow> exn + (string \<times> param list)" where
  "switchField field operator val =
    (if field = JStr ''total_spent'' then
       (if operator = JStr ''greater_than'' then Inr (''total_spent > ?'', [ParseFloat val])
        else if operator = JStr ''less_than'' then Inr (''total_spent < ?'', [ParseFloat val])
        else if operator = JStr ''equals'' then Inr (''total_spent = ?'', [ParseFloat val])
        else if operator = JStr ''between'' then
          (if nullish val then Inl TypeError
           else Inr (''total_spent BETWEEN ? AND ?'',
                     [ParseFloat (jsprop val ''min''), ParseFloat (jsprop val ''max'')]))
        else Inr ([], []))
     else if field = JStr ''total_orders'' then
       (if operator = JStr ''greater_than'' then Inr (''total_orders > ?'', [ParseInt val])
        else if operator = JStr ''less_than'' then Inr (''total_orders < ?'', [ParseInt val])
        else if operator = JStr ''equals'' then Inr (''total_orders = ?'', [ParseInt val])
        else Inr ([], []))
     else if field = JStr ''last_visit'' then
       (if operator = JStr ''days_ago'' then
          Inr (''last_visit < DATE_SUB(NOW(), INTERVAL ? DAY)'', [ParseInt val])
        else if operator = JStr ''within_days'' then
          Inr (''last_visit >= DATE_SUB(NOW(), INTERVAL ? DAY)'', [ParseInt val])
        else if operator = JStr ''is_null'' then Inr (''last_visit IS NULL'', [])
        else Inr ([], []))
     else if field = JStr ''status'' then
       (if operator = JStr ''equals'' then Inr (''status = ?'', [Raw val])
        else if operator = JStr ''not_equals'' then Inr (''status != ?'', [Raw val])
        else Inr ([], []))
     else if field = JStr ''registration_date'' then
       (if operator = JStr ''after'' then Inr (''registration_date > ?'', [Raw val])
        else if operator = JStr ''before'' then Inr (''registration_date < ?'', [Raw val])
        else if operator = JStr ''between'' then
          (if nullish val then Inl TypeError
           else Inr (''registration_date BETWEEN ? AND ?'',
                     [Raw (jsprop val ''start''), Raw (jsprop val ''end'')]))
        else Inr ([], []))
     else Inr ([], []))"

text \<open>
  The leaf part of processRule (lines 19-113): destructure, guard, switch. \<open>ps\<close> is the
  shared \<open>params\<close> array on entry; the result carries it after the pushes.
\<close>

definition processLeaf :: "json \<Rightarrow> param list \<Rightarrow> exn + (string \<times> param list)" where
  "processLeaf rule ps =
    (let field = jsprop rule ''field'';
         operator = jsprop rule ''operator'';
         val = jsprop rule ''value''
     in if \<not> truthy field \<or> \<not> truthy operator \<or> val = JUndefined then Inr ([], ps)
        else (case switchField field operator val of
                Inl e \<Rightarrow> Inl e
              | Inr (condition, pushed) \<Rightarrow> Inr (condition, ps @ pushed)))"

definition isComposite :: "json \<Rightarrow> bool" where
  "isComposite rule \<longleftrightarrow> jsprop rule ''operator'' = JStr ''AND'' \<or> jsprop rule ''operator'' = JStr ''OR''"

text \<open>The operator text of a composite, as interpolated into the join separator.\<close>

definition operatorText :: "json \<Rightarrow> string" where
  "operatorText rule = (case jsprop rule ''operator'' of JStr s \<Rightarrow> s | _ \<Rightarrow> [])"

text \<open>
  \<open>rule.conditions.map(...)\<close>: anything but an array has no \<open>map\<close> method (a JSON value
  cannot hold a function), so the call throws a TypeError.
\<close>

definition conditionsOf :: "json \<Rightarrow> exn + json list" where
  "conditionsOf rule = (case jsprop rule ''conditions'' of JArr cs \<Rightarrow> Inr cs | _ \<Rightarrow> Inl TypeError)"

lemma size_jsprop_less: "jsprop rule k = JArr cs \<Longrightarrow> size_list size cs + 1 < size rule"
proof (cases rule)
  case (JObj kvs)
  assume a: "jsprop rule k = JArr cs"
  from a JObj have "map_of kvs k = Some (JArr cs)"
    by (simp split: option.splits)
  then have "(k, JArr cs) \<in> set kvs" by (rule map_of_SomeD)
  then have "size (JArr cs) \<le> size_list (size_prod (\<lambda>_. 0) size) kvs"
    by (induction kvs) auto
  then show ?thesis using JObj by simp
qed simp_all

lemma size_jsprop_child: "jsprop rule k = JArr cs \<Longrightarrow> c \<in> set cs \<Longrightarrow> size c < size rule"
proof -
  assume a: "jsprop rule k = JArr cs" and c: "c \<in> set cs"
  from c have "size c \<le> size_list size cs" by (induction cs) auto
  with size_jsprop_less [OF a] show ?thesis by simp
qed

lemma size_conditionsOf: "conditionsOf rule = Inr cs \<Longrightarrow> size_list size cs + 1 < size rule"
  by (auto simp: conditionsOf_def split: json.splits dest: size_jsprop_less)

lemma size_child_less: "conditionsOf rule = Inr cs \<Longrightarrow> c \<in> set cs \<Longrightarrow> size c < size rule"
proof -
  assume a: "conditionsOf rule = Inr cs" and c: "c \<in> set cs"
  from c have "size c \<le> size_list size cs" by (induction cs) auto
  with size_conditionsOf [OF a] show ?thesis by simp
qed

text \<open>
  processRule with the shared \<open>params\<close> array threaded through (the unused \<open>isFirst\<close> argument
  is left out). \<open>processConditions\<close> is the \<open>map\<close> over the children, left to right; an
  exception in a child leaves the whole call. \<open>filter(Boolean)\<close> on strings removes the
  empty ones.
\<close>

function processRule :: "json \<Rightarrow> param list \<Rightarrow> exn + (string \<times> param list)"
  and processConditions :: "json list \<Rightarrow> param list \<Rightarrow> exn + (string list \<times> param list)" where
  "processRule rule ps =
    (if nullish rule then Inl TypeError
     else if isComposite rule then
       (case conditionsOf rule of
          Inl e \<Rightarrow> Inl e
        | Inr cs \<Rightarrow>
            (case processConditions cs ps of
               Inl e \<Rightarrow> Inl e
             | Inr (mapped, ps') \<Rightarrow>
                 (let conditions = filter (\<lambda>s. s \<noteq> []) mapped
                  in if length conditions > 0
                     then Inr (''('' @ join ('' '' @ operatorText rule @ '' '') conditions @ '')'', ps')
                     else Inr ([], ps'))))
     else processLeaf rule ps)"
| "processConditions [] ps = Inr ([], ps)"
| "processConditions (c # cs) ps =
    (case processRule c ps of
       Inl e \<Rightarrow> Inl e
     | Inr (s, ps') \<Rightarrow>
         (case processConditions cs ps' of
            Inl e \<Rightarrow> Inl e
          | Inr (ss, ps'') \<Rightarrow> Inr (s # ss, ps'')))"
  by pat_completeness auto
termination
  by (relation "measure (\<lambda>x. case x of Inl (r, _) \<Rightarrow> 2 * size r | Inr (cs, _) \<Rightarrow> 2 * size_list size cs + 1)")
    (auto dest: size_conditionsOf)

record segment_query =
  query :: string
  params :: "param list"

definition buildSegmentQuery :: "json \<Rightarrow> exn + segment_query" where
  "buildSegmentQuery rules =
    (case processRule rules [] of
       Inl e \<Rightarrow> Inl e
     | Inr (whereClause, ps) \<Rightarrow> Inr \<lparr>query = whereClause, params = ps\<rparr>)"

declare processRule.simps [simp del]

section \<open>The store, the clock and the outside world\<close>

text \<open>
  The tables of schema.sql that the dispatch and receipt code touches, as lists of rows. A
  timestamp written by the server is a clock reading; \<open>delivered_at\<close> may also be the text the
  vendor sent. The vendor message id written by the dispatch loop is the template string
  \<open>msg_<Date.now()>_<customer_id>\<close>, kept as its two components.
\<close>

datatype timeval = FromVendor string | ServerTime nat

datatype message_status = MPending | MSent | MDelivered | MFailed | MBounced

datatype campaign_status = CDraft | CScheduled | CSending | CSent | CFailed

datatype vendor_id = DispatchId nat nat | ReceiptId string

record customer =
  cust_id :: nat
  cust_name :: string
  cust_email :: string
  cust_total_spent :: rat

text \<open>
  \<open>seg_rules\<close> is what \<open>JSON.parse\<close> makes of the stored text: \<open>None\<close> when it throws.
\<close>

record segment_row =
  seg_id :: nat
  seg_name :: json
  seg_description :: json
  seg_rules :: "json option"
  seg_audience_size :: nat
  seg_created_by :: nat

record campaign_row =
  camp_id :: nat
  camp_segment_id :: nat
  camp_message_template :: string
  camp_status :: campaign_status
  camp_sent_at :: "nat option"

record message_row =
  msg_id :: nat
  msg_campaign_id :: nat
  msg_customer_id :: nat
  msg_content :: string
  msg_status :: message_status
  msg_sent_at :: "nat option"
  msg_delivered_at :: "timeval option"
  msg_failure_reason :: "string option"
  msg_vendor_message_id :: "vendor_id option"
  msg_updated_at :: nat

text \<open>
  \<open>next_segment_id\<close> and \<open>next_log_id\<close> are the AUTO_INCREMENT counters; \<open>calls\<close> counts the
  \<open>pool.execute\<close> calls issued so far.
\<close>

record world =
  segments :: "segment_row list"
  campaigns :: "campaign_row list"
  communication_log :: "message_row list"
  next_segment_id :: nat
  next_log_id :: nat
  calls :: nat

text \<open>
  What the code does not decide:
  \<^item> \<open>faults k\<close>: whether the \<open>k\<close>-th \<open>pool.execute\<close> call rejects, and with which message;
  \<^item> \<open>clock k\<close>: the server time when \<open>k\<close> calls have been issued;
  \<^item> \<open>vendorAccepts k\<close>: the draw \<open>Math.random() > 0.1\<close> made when \<open>k\<close> calls have been issued;
  \<^item> \<open>selectCustomers clause ps\<close>: the customer store's answer to
    \<open>SELECT ... FROM customers WHERE <clause>\<close> with the bound parameters, or the message of
    the error MySQL raises for the statement;
  \<^item> \<open>personalize\<close>: the three chained \<open>String.replace\<close> calls on the message template;
  \<^item> \<open>validateSegment\<close>: \<open>segmentSchema.validate\<close> (Joi), giving the error details or the value;
  \<^item> \<open>bigintAsString\<close>, \<open>decimalAsString\<close>: the configuration of the database driver
    (config/database.js): whether it hands a BIGINT column (\<open>COUNT( * )\<close>) and a DECIMAL
    column (\<open>SUM(...)\<close>) over as a string or as a number.
\<close>

record env =
  faults :: "nat \<Rightarrow> string option"
  clock :: "nat \<Rightarrow> nat"
  vendorAccepts :: "nat \<Rightarrow> bool"
  selectCustomers :: "string \<Rightarrow> param list \<Rightarrow> string + customer list"
  personalize :: "string \<Rightarrow> customer \<Rightarrow> string"
  validateSegment :: "json \<Rightarrow> string + json"
  bigintAsString :: bool
  decimalAsString :: bool

text \<open>
  \<open>await pool.execute(...)\<close>: the call is counted; it either rejects, leaving the tables as
  they are, or runs the statement at the current server time.
\<close>

definition execute :: "env \<Rightarrow> (nat \<Rightarrow> world \<Rightarrow> 'a \<times> world) \<Rightarrow> world \<Rightarrow> (string + 'a) \<times> world" where
  "execute e stmt w =
    (let w' = w\<lparr>calls := calls w + 1\<rparr>
     in case faults e (calls w) of
          Some msg \<Rightarrow> (Inl msg, w')
        | None \<Rightarrow> (case stmt (clock e (calls w)) w' of (x, w'') \<Rightarrow> (Inr x, w'')))"

subsection \<open>The SQL statements\<close>

definition selectSegmentRules :: "nat \<Rightarrow> nat \<Rightarrow> world \<Rightarrow> json option list \<times> world" where
  "selectSegmentRules segId t w = (map seg_rules (filter (\<lambda>s. seg_id s = segId) (segments w)), w)"

definition queryCustomers :: "env \<Rightarrow> string \<Rightarrow> param list \<Rightarrow> world \<Rightarrow> (string + customer list) \<times> world" where
  "queryCustomers e clause ps w =
    (case execute e (\<lambda>t w'. ((), w')) w of
       (Inl msg, w') \<Rightarrow> (Inl msg, w')
     | (Inr u, w') \<Rightarrow> (selectCustomers e clause ps, w'))"

definition insertLog :: "nat \<Rightarrow> nat \<Rightarrow> string \<Rightarrow> nat \<Rightarrow> world \<Rightarrow> nat \<times> world" where
  "insertLog campaignId customerId content t w =
    (next_log_id w,
     w\<lparr>communication_log := communication_log w @
          [\<lparr>msg_id = next_log_id w, msg_campaign_id = campaignId, msg_customer_id = customerId,
            msg_content = content, msg_status = MPending, msg_sent_at = None,
            msg_delivered_at = None, msg_failure_reason = None, msg_vendor_message_id = None,
            msg_updated_at = t\<rparr>],
       next_log_id := next_log_id w + 1\<rparr>)"

definition updateLog :: "(message_row \<Rightarrow> message_row) \<Rightarrow> nat \<Rightarrow> world \<Rightarrow> unit \<times> world" where
  "updateLog f logId w =
    ((), w\<lparr>communication_log := map (\<lambda>m. if msg_id m = logId then f m else m) (communication_log w)\<rparr>)"

definition setSent :: "vendor_id \<Rightarrow> nat \<Rightarrow> message_row \<Rightarrow> message_row" where
  "setSent vid t m =
    m\<lparr>msg_status := MSent, msg_sent_at := Some t, msg_vendor_message_id := Some vid,
      msg_updated_at := t\<rparr>"

definition setFailed :: "string \<Rightarrow> nat \<Rightarrow> message_row \<Rightarrow> message_row" where
  "setFailed reason t m =
    m\<lparr>msg_status := MFailed, msg_failure_reason := Some reason, msg_updated_at := t\<rparr>"

definition setDelivered :: "timeval \<Rightarrow> vendor_id option \<Rightarrow> nat \<Rightarrow> message_row \<Rightarrow> message_row" where
  "setDelivered deliveredAt vid t m =
    m\<lparr>msg_status := MDelivered, msg_delivered_at := Some deliveredAt, msg_vendor_message_id := vid,
      msg_updated_at := t\<rparr>"

definition updateCampaign :: "(campaign_row \<Rightarrow> campaign_row) \<Rightarrow> nat \<Rightarrow> world \<Rightarrow> unit \<times> world" where
  "updateCampaign f campaignId w =
    ((), w\<lparr>campaigns := map (\<lambda>c. if camp_id c = campaignId then f c else c) (campaigns w)\<rparr>)"

definition setCampaignSent :: "nat \<Rightarrow> campaign_row \<Rightarrow> campaign_row" where
  "setCampaignSent t c = c\<lparr>camp_status := CSent, camp_sent_at := Some t\<rparr>"

definition setCampaignFailed :: "campaign_row \<Rightarrow> campaign_row" where
  "setCampaignFailed c = c\<lparr>camp_status := CFailed\<rparr>"

subsection \<open>The aggregate queries of the campaign routes\<close>

text \<open>
  The per-campaign counts selected by GET /api/campaigns (lines 130-132) and by
  GET /api/campaigns/:id/stats (lines 303-313).
\<close>

definition total_messages :: "nat \<Rightarrow> world \<Rightarrow> nat" where
  "total_messages campaignId w =
    length (filter (\<lambda>m. msg_campaign_id m = campaignId) (communication_log w))"

definition sent_messages :: "nat \<Rightarrow> world \<Rightarrow> nat" where
  "sent_messages campaignId w =
    length (filter (\<lambda>m. msg_campaign_id m = campaignId \<and> msg_status m = MSent) (communication_log w))"

definition failed_messages :: "nat \<Rightarrow> world \<Rightarrow> nat" where
  "failed_messages campaignId w =
    length (filter (\<lambda>m. msg_campaign_id m = campaignId \<and> msg_status m = MFailed) (communication_log w))"

definition pending_messages :: "nat \<Rightarrow> world \<Rightarrow> nat" where
  "pending_messages campaignId w =
    length (filter (\<lambda>m. msg_campaign_id m = campaignId \<and> msg_status m = MPending) (communication_log w))"

section \<open>The dispatch engine: sendCampaignMessages (server/routes/campaigns.js)\<close>

record log_entry =
  log_id :: nat
  log_customer_id :: nat
  log_message_content :: string

record dispatch_result =
  totalSent :: nat
  success :: bool

text \<open>
  The first loop (lines 44-63): one INSERT per customer, in \<open>pending\<close> status; the entry
  with the insert id is pushed onto \<open>communicationLogs\<close>. A rejected INSERT leaves the loop.
\<close>

fun createLogs :: "env \<Rightarrow> nat \<Rightarrow> string \<Rightarrow> customer list \<Rightarrow> log_entry list \<Rightarrow> world
    \<Rightarrow> (exn + log_entry list) \<times> world" where
  "createLogs e campaignId template [] logs w = (Inr logs, w)"
| "createLogs e campaignId template (c # cs) logs w =
    (let personalizedMessage = personalize e template c
     in case execute e (insertLog campaignId (cust_id c) personalizedMessage) w of
          (Inl msg, w') \<Rightarrow> (Inl (DbError msg), w')
        | (Inr insertId, w') \<Rightarrow>
            createLogs e campaignId template cs
              (logs @ [\<lparr>log_id = insertId, log_customer_id = cust_id c,
                         log_message_content = personalizedMessage\<rparr>]) w')"

text \<open>
  One iteration of the second loop (lines 66-98): the simulated vendor call, the UPDATE to
  \<open>sent\<close> or \<open>failed\<close>, and the inner \<open>catch\<close>, whose own UPDATE may reject in turn.
\<close>

definition sendOne :: "env \<Rightarrow> log_entry \<Rightarrow> world \<Rightarrow> (exn + unit) \<times> world" where
  "sendOne e entry w =
    (let attempt =
       (if vendorAccepts e (calls w)
        then execute e (\<lambda>t. updateLog (setSent (DispatchId (clock e (calls w)) (log_customer_id entry)) t)
                               (log_id entry)) w
        else execute e (\<lambda>t. updateLog (setFailed ''Vendor API error'' t) (log_id entry)) w)
     in case attempt of
          (Inr u, w') \<Rightarrow> (Inr (), w')
        | (Inl msg, w') \<Rightarrow>
            (case execute e (\<lambda>t. updateLog (setFailed msg t) (log_id entry)) w' of
               (Inr u, w'') \<Rightarrow> (Inr (), w'')
             | (Inl msg', w'') \<Rightarrow> (Inl (DbError msg'), w'')))"

fun sendLogs :: "env \<Rightarrow> log_entry list \<Rightarrow> world \<Rightarrow> (exn + unit) \<times> world" where
  "sendLogs e [] w = (Inr (), w)"
| "sendLogs e (entry # logs) w =
    (case sendOne e entry w of
       (Inl err, w') \<Rightarrow> (Inl err, w')
     | (Inr u, w') \<Rightarrow> sendLogs e logs w')"

text \<open>The body of the outer \<open>try\<close> (lines 24-109).\<close>

definition tryDispatch :: "env \<Rightarrow> nat \<Rightarrow> nat \<Rightarrow> string \<Rightarrow> world \<Rightarrow> (exn + dispatch_result) \<times> world" where
  "tryDispatch e campaignId segmentId messageTemplate w =
    (case execute e (selectSegmentRules segmentId) w of
       (Inl msg, w1) \<Rightarrow> (Inl (DbError msg), w1)
     | (Inr [], w1) \<Rightarrow> (Inl SegmentNotFound, w1)
     | (Inr (None # rest), w1) \<Rightarrow> (Inl SyntaxError, w1)
     | (Inr (Some rules # rest), w1) \<Rightarrow>
         (case buildSegmentQuery rules of
            Inl err \<Rightarrow> (Inl err, w1)
          | Inr q \<Rightarrow>
              (case queryCustomers e (query q) (params q) w1 of
                 (Inl msg, w2) \<Rightarrow> (Inl (DbError msg), w2)
               | (Inr customers, w2) \<Rightarrow>
                   (case createLogs e campaignId messageTemplate customers [] w2 of
                      (Inl err, w3) \<Rightarrow> (Inl err, w3)
                    | (Inr communicationLogs, w3) \<Rightarrow>
                        (case sendLogs e communicationLogs w3 of
                           (Inl err, w4) \<Rightarrow> (Inl err, w4)
                         | (Inr u, w4) \<Rightarrow>
                             (case execute e (\<lambda>t. updateCampaign (setCampaignSent t) campaignId) w4 of
                                (Inl msg, w5) \<Rightarrow> (Inl (DbError msg), w5)
                              | (Inr u', w5) \<Rightarrow>
                                  (Inr \<lparr>totalSent = length communicationLogs, success = True\<rparr>,
                                   w5)))))))"

text \<open>
  The whole function: on an exception the \<open>catch\<close> block (lines 110-118) issues the UPDATE to
  \<open>failed\<close> and rethrows; when that UPDATE rejects, its error is the one that leaves.
\<close>

definition sendCampaignMessages :: "env \<Rightarrow> nat \<Rightarrow> nat \<Rightarrow> string \<Rightarrow> world \<Rightarrow> (exn + dispatch_result) \<times> world" where
  "sendCampaignMessages e campaignId segmentId messageTemplate w =
    (case tryDispatch e campaignId segmentId messageTemplate w of
       (Inr r, w') \<Rightarrow> (Inr r, w')
     | (Inl err, w') \<Rightarrow>
         (case execute e (\<lambda>t. updateCampaign setCampaignFailed campaignId) w' of
            (Inl msg, w'') \<Rightarrow> (Inl (DbError msg), w'')
          | (Inr u, w'') \<Rightarrow> (Inl err, w'')))"

section \<open>The segment routes (server/routes/segments.js)\<close>

datatype reply =
    ValidationFailed string
  | RulesRequired
  | InvalidSegmentRules
  | SegmentCreated "segment_row option"
  | SegmentPreview nat "customer list"
  | FailedToCreateSegment
  | FailedToPreviewSegment
  | MissingRequiredFields
  | MessageNotFound
  | ReceiptProcessed
  | FailedToProcessReceipt

fun statusCode :: "reply \<Rightarrow> nat" where
  "statusCode (ValidationFailed details) = 400"
| "statusCode RulesRequired = 400"
| "statusCode InvalidSegmentRules = 400"
| "statusCode (SegmentCreated row) = 201"
| "statusCode (SegmentPreview n sample) = 200"
| "statusCode FailedToCreateSegment = 500"
| "statusCode FailedToPreviewSegment = 500"
| "statusCode MissingRequiredFields = 400"
| "statusCode MessageNotFound = 404"
| "statusCode ReceiptProcessed = 200"
| "statusCode FailedToProcessReceipt = 500"

definition insertSegment :: "json \<Rightarrow> json \<Rightarrow> json \<Rightarrow> nat \<Rightarrow> nat \<Rightarrow> nat \<Rightarrow> world \<Rightarrow> nat \<times> world" where
  "insertSegment name description rules audienceSize userId t w =
    (next_segment_id w,
     w\<lparr>segments := segments w @
          [\<lparr>seg_id = next_segment_id w, seg_name = name, seg_description = description,
            seg_rules = Some rules, seg_audience_size = audienceSize, seg_created_by = userId\<rparr>],
       next_segment_id := next_segment_id w + 1\<rparr>)"

definition selectSegment :: "nat \<Rightarrow> nat \<Rightarrow> world \<Rightarrow> segment_row list \<times> world" where
  "selectSegment segId t w = (filter (\<lambda>s. seg_id s = segId) (segments w), w)"

text \<open>
  POST /api/segments (lines 183-233). The route uses the copy of buildSegmentQuery in
  segments.js, which is the text of the one in segmentUtils.js. Any exception inside the
  \<open>try\<close> gives the 500 reply.
\<close>

definition createSegment :: "env \<Rightarrow> nat \<Rightarrow> json \<Rightarrow> world \<Rightarrow> reply \<times> world" where
  "createSegment e userId body w =
    (case validateSegment e body of
       Inl details \<Rightarrow> (ValidationFailed details, w)
     | Inr val \<Rightarrow>
         (case buildSegmentQuery (jsprop val ''rules'') of
            Inl err \<Rightarrow> (FailedToCreateSegment, w)
          | Inr q \<Rightarrow>
              if query q = [] then (InvalidSegmentRules, w)
              else (case queryCustomers e (query q) (params q) w of
                      (Inl msg, w1) \<Rightarrow> (FailedToCreateSegment, w1)
                    | (Inr found, w1) \<Rightarrow>
                        (case execute e (insertSegment (jsprop val ''name'')
                                (jsprop val ''description'') (jsprop val ''rules'')
                                (length found) userId) w1 of
                           (Inl msg, w2) \<Rightarrow> (FailedToCreateSegment, w2)
                         | (Inr insertId, w2) \<Rightarrow>
                             (case execute e (selectSegment insertId) w2 of
                                (Inl msg, w3) \<Rightarrow> (FailedToCreateSegment, w3)
                              | (Inr rows, w3) \<Rightarrow>
                                  (SegmentCreated (case rows of [] \<Rightarrow> None | r # rest \<Rightarrow> Some r),
                                   w3))))))"

text \<open>POST /api/segments/preview (lines 236-268): the count, then the first ten rows.\<close>

definition previewSegment :: "env \<Rightarrow> json \<Rightarrow> world \<Rightarrow> reply \<times> world" where
  "previewSegment e body w =
    (if nullish body then (FailedToPreviewSegment, w)
     else let rules = jsprop body ''rules''
          in if \<not> truthy rules then (RulesRequired, w)
             else (case buildSegmentQuery rules of
                     Inl err \<Rightarrow> (FailedToPreviewSegment, w)
                   | Inr q \<Rightarrow>
                       if query q = [] then (InvalidSegmentRules, w)
                       else (case queryCustomers e (query q) (params q) w of
                               (Inl msg, w1) \<Rightarrow> (FailedToPreviewSegment, w1)
                             | (Inr found, w1) \<Rightarrow>
                                 (case queryCustomers e (query q) (params q) w1 of
                                    (Inl msg, w2) \<Rightarrow> (FailedToPreviewSegment, w2)
                                  | (Inr sample, w2) \<Rightarrow>
                                      (SegmentPreview (length found) (take 10 sample), w2)))))"

section \<open>The receipt reconciler: POST /api/vendor/delivery-receipt\<close>

text \<open>
  The fields destructured from the request body. An absent key is \<open>None\<close>; an absent
  \<open>vendor_message_id\<close> is bound as NULL.
\<close>

record receipt =
  rc_message_id :: "nat option"
  rc_status :: "string option"
  rc_delivered_at :: "string option"
  rc_failed_at :: "string option"
  rc_failure_reason :: "string option"
  rc_vendor_message_id :: "string option"

definition selectLog :: "nat \<Rightarrow> nat \<Rightarrow> world \<Rightarrow> message_row list \<times> world" where
  "selectLog messageId t w = (filter (\<lambda>m. msg_id m = messageId) (communication_log w), w)"

definition isProcessed :: "message_row \<Rightarrow> bool" where
  "isProcessed m \<longleftrightarrow> msg_status m = MSent \<or> msg_status m = MDelivered \<or> msg_status m = MFailed"

text \<open>
  A column of a result row as the driver hands it to the route: a JavaScript number, a
  string holding the decimal text of the number, or \<open>null\<close>. \<open>===\<close> holds between two numbers
  or two strings that are equal and never between a number and a string; \<open>> 0\<close> converts a
  string to its number and \<open>null\<close> to 0.
\<close>

datatype sqlvalue = SqlNumber nat | SqlString nat | SqlNull

fun strictEquals :: "sqlvalue \<Rightarrow> sqlvalue \<Rightarrow> bool" where
  "strictEquals (SqlNumber a) (SqlNumber b) = (a = b)"
| "strictEquals (SqlString a) (SqlString b) = (a = b)"
| "strictEquals SqlNull SqlNull = True"
| "strictEquals _ _ = False"

fun greaterThanZero :: "sqlvalue \<Rightarrow> bool" where
  "greaterThanZero (SqlNumber n) = (n > 0)"
| "greaterThanZero (SqlString n) = (n > 0)"
| "greaterThanZero SqlNull = False"

text \<open>
  The aggregate query (lines 554-561): \<open>COUNT( * )\<close>, a BIGINT, as total, and the conditional
  \<open>SUM\<close>, a DECIMAL, as processed; the sum over no row is NULL.
\<close>

definition campaignStats :: "env \<Rightarrow> nat \<Rightarrow> nat \<Rightarrow> world \<Rightarrow> (sqlvalue \<times> sqlvalue) \<times> world" where
  "campaignStats e campaignId t w =
    (let rows = filter (\<lambda>m. msg_campaign_id m = campaignId) (communication_log w);
         totalCount = (if bigintAsString e then SqlString (length rows)
                       else SqlNumber (length rows));
         processedCount =
           (if rows = [] then SqlNull
            else if decimalAsString e then SqlString (length (filter isProcessed rows))
            else SqlNumber (length (filter isProcessed rows)))
     in ((totalCount, processedCount), w))"

definition applyReceipt :: "env \<Rightarrow> nat \<Rightarrow> string \<Rightarrow> receipt \<Rightarrow> world \<Rightarrow> (string + unit) \<times> world" where
  "applyReceipt e messageId status rc w =
    (if status = ''delivered'' then
       execute e (\<lambda>t. updateLog
           (setDelivered
              (case rc_delivered_at rc of
                 Some d \<Rightarrow> if d \<noteq> [] then FromVendor d else ServerTime (clock e (calls w))
               | None \<Rightarrow> ServerTime (clock e (calls w)))
              (map_option ReceiptId (rc_vendor_message_id rc)) t)
           messageId) w
     else if status = ''failed'' then
       execute e (\<lambda>t. updateLog
           (setFailed
              (case rc_failure_reason rc of
                 Some r \<Rightarrow> if r \<noteq> [] then r else ''Unknown error''
               | None \<Rightarrow> ''Unknown error'') t)
           messageId) w
     else (Inr (), w))"

definition finishCampaign :: "env \<Rightarrow> nat \<Rightarrow> world \<Rightarrow> reply \<times> world" where
  "finishCampaign e campaignId w =
    (case execute e (campaignStats e campaignId) w of
       (Inl msg, w1) \<Rightarrow> (FailedToProcessReceipt, w1)
     | (Inr (totalCount, processedCount), w1) \<Rightarrow>
         if strictEquals processedCount totalCount \<and> greaterThanZero totalCount
         then (case execute e (\<lambda>t. updateCampaign (setCampaignSent t) campaignId) w1 of
                 (Inl msg, w2) \<Rightarrow> (FailedToProcessReceipt, w2)
               | (Inr u, w2) \<Rightarrow> (ReceiptProcessed, w2))
         else (ReceiptProcessed, w1))"

definition deliveryReceipt :: "env \<Rightarrow> receipt \<Rightarrow> world \<Rightarrow> reply \<times> world" where
  "deliveryReceipt e rc w =
    (case (rc_message_id rc, rc_status rc) of
       (Some messageId, Some status) \<Rightarrow>
         if messageId = 0 \<or> status = [] then (MissingRequiredFields, w)
         else (case execute e (selectLog messageId) w of
                 (Inl msg, w1) \<Rightarrow> (FailedToProcessReceipt, w1)
               | (Inr [], w1) \<Rightarrow> (MessageNotFound, w1)
               | (Inr (entry # rest), w1) \<Rightarrow>
                   (case applyReceipt e messageId status rc w1 of
                      (Inl msg, w2) \<Rightarrow> (FailedToProcessReceipt, w2)
                    | (Inr u, w2) \<Rightarrow> finishCampaign e (msg_campaign_id entry) w2))
     | _ \<Rightarrow> (MissingRequiredFields, w))"

section \<open>Notions used to state the claims\<close>

text \<open>
  What buildSegmentQuery returns for a tree, as two total projections (empty when it throws).
\<close>

definition compiledQuery :: "json \<Rightarrow> string" where
  "compiledQuery r = (case buildSegmentQuery r of Inr res \<Rightarrow> query res | Inl e \<Rightarrow> [])"

definition compiledParams :: "json \<Rightarrow> param list" where
  "compiledParams r = (case buildSegmentQuery r of Inr res \<Rightarrow> params res | Inl e \<Rightarrow> [])"

text \<open>
  The leaves of a rule tree, left to right, depth first: a node whose \<open>operator\<close> is AND or
  OR is a composite, its children are the elements of its \<open>conditions\<close> array; any other
  node is a leaf.
\<close>

function leaves :: "json \<Rightarrow> json list" where
  "leaves rule =
    (if jsprop rule ''operator'' = JStr ''AND'' \<or> jsprop rule ''operator'' = JStr ''OR''
     then (case jsprop rule ''conditions'' of JArr cs \<Rightarrow> concat (map leaves cs) | _ \<Rightarrow> [])
     else [rule])"
  by pat_completeness auto
termination
  by (relation "measure size") (auto dest: size_jsprop_child)

declare leaves.simps [simp del]

text \<open>What a single leaf compiles to: its text and the parameters it pushes.\<close>

definition leafText :: "json \<Rightarrow> string" where
  "leafText l = (case processLeaf l [] of Inr (q, vs) \<Rightarrow> q | Inl e \<Rightarrow> [])"

definition leafPushed :: "json \<Rightarrow> param list" where
  "leafPushed l = (case processLeaf l [] of Inr (q, vs) \<Rightarrow> vs | Inl e \<Rightarrow> [])"



text \<open>
  The leaves retained in the compiled expression are those with a non-empty text: a composite
  keeps every child with a non-empty expression, so such a leaf is never dropped higher up.
\<close>

definition retainedLeaves :: "json \<Rightarrow> json list" where
  "retainedLeaves rule = filter (\<lambda>l. leafText l \<noteq> []) (leaves rule)"

text \<open>The number of values a retained leaf binds, by its operator.\<close>

definition leafArity :: "json \<Rightarrow> nat" where
  "leafArity l =
    (if jsprop l ''operator'' = JStr ''between'' then 2
     else if jsprop l ''operator'' = JStr ''is_null'' then 0
     else 1)"

definition placeholders :: "string \<Rightarrow> nat" where
  "placeholders s = count_list s CHR ''?''"















text \<open>The status a receipt with outcome \<open>s\<close> gives to a message that had status \<open>old\<close>.\<close>

definition receiptStatus :: "string \<Rightarrow> message_status \<Rightarrow> message_status" where
  "receiptStatus s old =
    (if s = ''delivered'' then MDelivered else if s = ''failed'' then MFailed else old)"

text \<open>A row that is still the same message: id, campaign and customer are kept.\<close>

definition sameRow :: "message_row \<Rightarrow> message_row \<Rightarrow> bool" where
  "sameRow m m' \<longleftrightarrow>
     msg_id m' = msg_id m \<and> msg_campaign_id m' = msg_campaign_id m \<and>
     msg_customer_id m' = msg_customer_id m"

text \<open>
  What the fault oracle decides about a dispatch that starts in \<open>w\<close>. \<open>audienceOf\<close> is the
  list of customers the insert loop runs over: the answer of the customer store, and no
  customer when the segment lookup, the parse, the compilation or the customer query raised
  (the two reads are the calls \<open>calls w\<close> and \<open>calls w + 1\<close>).
\<close>

definition audienceOf :: "env \<Rightarrow> nat \<Rightarrow> world \<Rightarrow> customer list" where
  "audienceOf e segmentId w =
    (if faults e (calls w) \<noteq> None \<or> faults e (calls w + 1) \<noteq> None then []
     else (case map seg_rules (filter (\<lambda>s. seg_id s = segmentId) (segments w)) of
             Some rules # rest \<Rightarrow>
               (case buildSegmentQuery rules of
                  Inr q \<Rightarrow>
                    (case selectCustomers e (query q) (params q) of
                       Inr customers \<Rightarrow> customers
                     | Inl msg \<Rightarrow> [])
                | Inl err \<Rightarrow> [])
           | _ \<Rightarrow> []))"

text \<open>
  How many of \<open>n\<close> INSERTs, issued one per call from call \<open>c\<close> on, the store accepts before
  it rejects one.
\<close>

fun createdCount :: "env \<Rightarrow> nat \<Rightarrow> nat \<Rightarrow> nat" where
  "createdCount e c 0 = 0"
| "createdCount e c (Suc n) = (if faults e c = None then Suc (createdCount e (c + 1) n) else 0)"

text \<open>
  How many of \<open>n\<close> messages are sent or failed when the send loop, starting at call \<open>c\<close>, is
  left: a message is settled by its UPDATE or, when the store rejects that one, by the UPDATE
  of the inner \<open>catch\<close>; when the store rejects both, the loop is left with an exception.
\<close>

fun settledCount :: "env \<Rightarrow> nat \<Rightarrow> nat \<Rightarrow> nat" where
  "settledCount e c 0 = 0"
| "settledCount e c (Suc n) =
    (if faults e c = None then Suc (settledCount e (c + 1) n)
     else if faults e (c + 1) = None then Suc (settledCount e (c + 2) n)
     else 0)"

section \<open>Example data\<close>

definition message :: "nat \<Rightarrow> nat \<Rightarrow> nat \<Rightarrow> message_status \<Rightarrow> message_row" where
  "message i campaignId customerId st =
    \<lparr>msg_id = i, msg_campaign_id = campaignId, msg_customer_id = customerId,
     msg_content = ''Hello'', msg_status = st, msg_sent_at = None, msg_delivered_at = None,
     msg_failure_reason = None, msg_vendor_message_id = None, msg_updated_at = 0\<rparr>"

definition campaign :: "nat \<Rightarrow> campaign_status \<Rightarrow> campaign_row" where
  "campaign i st =
    \<lparr>camp_id = i, camp_segment_id = 1, camp_message_template = ''Hello {name}'',
     camp_status = st, camp_sent_at = None\<rparr>"

definition worldWith :: "campaign_row list \<Rightarrow> message_row list \<Rightarrow> world" where
  "worldWith cs ms =
    \<lparr>segments = [], campaigns = cs, communication_log = ms, next_segment_id = 1,
     next_log_id = Suc (length ms), calls = 0\<rparr>"

definition deliveredReceipt :: "nat \<Rightarrow> receipt" where
  "deliveredReceipt i =
    \<lparr>rc_message_id = Some i, rc_status = Some ''delivered'',
     rc_delivered_at = Some ''2025-01-01T10:00:00.000Z'', rc_failed_at = None,
     rc_failure_reason = None, rc_vendor_message_id = Some ''vendor_1_5''\<rparr>"

definition alice :: customer where
  "alice = \<lparr>cust_id = 5, cust_name = ''Alice'', cust_email = ''alice@example.com'',
            cust_total_spent = 15000\<rparr>"

definition bob :: customer where
  "bob = \<lparr>cust_id = 6, cust_name = ''Bob'', cust_email = ''bob@example.com'',
          cust_total_spent = 5000\<rparr>"

text \<open>
  Three behaviours of the store: it rejects nothing; it is unavailable from the \<open>n\<close>-th call
  on; it rejects the \<open>n\<close>-th call only.
\<close>

definition noFault :: "nat \<Rightarrow> string option" where
  "noFault k = None"

definition downFrom :: "nat \<Rightarrow> nat \<Rightarrow> string option" where
  "downFrom n k = (if n \<le> k then Some ''connection lost'' else None)"

definition faultAt :: "nat \<Rightarrow> nat \<Rightarrow> string option" where
  "faultAt n k = (if k = n then Some ''connection lost'' else None)"

definition exampleEnv :: "(nat \<Rightarrow> string option) \<Rightarrow> env" where
  "exampleEnv f =
    \<lparr>faults = f, clock = (\<lambda>k. 100 + k), vendorAccepts = even,
     selectCustomers = (\<lambda>clause ps. if clause = ''status = ?'' then Inr [alice, bob] else Inr []),
     personalize = (\<lambda>template c. template @ '' '' @ cust_name c),
     validateSegment = Inr, bigintAsString = False, decimalAsString = False\<rparr>"

definition dispatchWorld :: world where
  "dispatchWorld =
    \<lparr>segments =
       [\<lparr>seg_id = 1, seg_name = JStr ''Active'', seg_description = JUndefined,
         seg_rules = Some (JObj [(''field'', JStr ''status''), (''operator'', JStr ''equals''),
                                 (''value'', JStr ''active'')]),
         seg_audience_size = 2, seg_created_by = 7\<rparr>],
     campaigns = [campaign 1 CSending, campaign 9 CSent],
     communication_log = [message 1 9 5 MDelivered],
     next_segment_id = 2, next_log_id = 2, calls = 0\<rparr>"

section \<open>Auxiliary notions for the proofs\<close>

definition shiftP :: "param list \<Rightarrow> exn + ('a \<times> param list) \<Rightarrow> exn + ('a \<times> param list)" where
  "shiftP ps r = (case r of Inl e \<Rightarrow> Inl e | Inr (q, vs) \<Rightarrow> Inr (q, ps @ vs))"

definition ruleQuery :: "json \<Rightarrow> string" where
  "ruleQuery r = (case processRule r [] of Inr (q, vs) \<Rightarrow> q | Inl e \<Rightarrow> [])"

definition rulePushed :: "json \<Rightarrow> param list" where
  "rulePushed r = (case processRule r [] of Inr (q, vs) \<Rightarrow> vs | Inl e \<Rightarrow> [])"

definition compositeText :: "string \<Rightarrow> string list \<Rightarrow> string" where
  "compositeText oper exprs =
    (let surviving = filter (\<lambda>e. e \<noteq> []) exprs
     in if surviving = [] then [] else ''('' @ join ('' '' @ oper @ '' '') surviving @ '')'')"

text \<open>What one pass over the log table may do to a row, for the ids in \<open>S\<close>.\<close>

definition touched :: "nat set \<Rightarrow> message_row \<Rightarrow> message_row \<Rightarrow> bool" where
  "touched S m m' \<longleftrightarrow> sameRow m m' \<and> (msg_id m \<notin> S \<longrightarrow> m' = m)"

definition settled :: "nat set \<Rightarrow> message_row \<Rightarrow> message_row \<Rightarrow> bool" where
  "settled S m m' \<longleftrightarrow>
     touched S m m' \<and> (msg_id m \<in> S \<longrightarrow> msg_status m' = MSent \<or> msg_status m' = MFailed)"

definition keepsRows :: "nat \<Rightarrow> world \<Rightarrow> world \<Rightarrow> bool" where
  "keepsRows cid w w' \<longleftrightarrow>
     (\<exists>old rows. communication_log w' = old @ rows \<and>
        list_all2 sameRow (communication_log w) old \<and>
        (\<forall>m\<in>set rows. msg_campaign_id m = cid \<and> msg_id m \<ge> next_log_id w))"

text \<open>
  The message table after a dispatch that raised: the earlier rows, then \<open>k\<close> rows of the
  campaign for the first \<open>k\<close> customers, the first \<open>j\<close> of them sent or failed and the
  others pending.
\<close>

definition partialRecord :: "nat \<Rightarrow> customer list \<Rightarrow> nat \<Rightarrow> nat \<Rightarrow> world \<Rightarrow> world \<Rightarrow> bool" where
  "partialRecord cid audience k j w w1 \<longleftrightarrow>
     (\<exists>old rows. communication_log w1 = old @ rows \<and>
        list_all2 sameRow (communication_log w) old \<and>
        ((\<forall>m\<in>set (communication_log w). msg_id m < next_log_id w) \<longrightarrow> old = communication_log w) \<and>
        map msg_id rows = [next_log_id w ..< next_log_id w + k] \<and>
        map msg_customer_id rows = map cust_id (take k audience) \<and>
        (\<forall>m\<in>set rows. msg_campaign_id m = cid) \<and>
        (\<forall>m\<in>set (take j rows). msg_status m = MSent \<or> msg_status m = MFailed) \<and>
        (\<forall>m\<in>set (drop j rows). msg_status m = MPending))"

section \<open>Lemmas\<close>

subsection \<open>The parameter array is only appended to\<close>

lemma shiftP_simps [simp]:
  "shiftP ps (Inl e) = Inl e"
  "shiftP ps (Inr (q, vs)) = Inr (q, ps @ vs)"
  by (simp_all add: shiftP_def)

lemma shiftP_Nil [simp]: "shiftP [] r = r"
  by (simp add: shiftP_def split: sum.splits)

lemma processLeaf_shift: "processLeaf r ps = shiftP ps (processLeaf r [])"
  by (simp add: processLeaf_def Let_def split: sum.splits)

lemma processConditions_shift:
  assumes "\<And>c qs. c \<in> set cs \<Longrightarrow> processRule c qs = shiftP qs (processRule c [])"
  shows "processConditions cs ps = shiftP ps (processConditions cs [])"
  using assms
proof (induction cs arbitrary: ps)
  case Nil
  show ?case by simp
next
  case (Cons c cs)
  have c: "processRule c ps = shiftP ps (processRule c [])"
    by (rule Cons.prems) simp
  have ih: "\<And>qs. processConditions cs qs = shiftP qs (processConditions cs [])"
    by (rule Cons.IH, rule Cons.prems, simp)
  show ?case
  proof (cases "processRule c []")
    case (Inl e)
    with c show ?thesis by simp
  next
    case (Inr r)
    obtain s vs where r: "r = (s, vs)" by (cases r)
    show ?thesis
    proof (cases "processConditions cs []")
      case (Inl e)
      with c Inr r ih [of "ps @ vs"] ih [of vs] show ?thesis by simp
    next
      case (Inr rr)
      obtain ss ws where "rr = (ss, ws)" by (cases rr)
      with c \<open>processRule c [] = Inr r\<close> r Inr ih [of "ps @ vs"] ih [of vs] show ?thesis by simp
    qed
  qed
qed

lemma processRule_shift: "processRule r ps = shiftP ps (processRule r [])"
proof (induction r arbitrary: ps rule: measure_induct_rule [of size])
  case (less r)
  show ?case
  proof (cases "nullish r \<or> \<not> isComposite r")
    case True
    then have "processRule r ps = (if nullish r then Inl TypeError else processLeaf r ps)"
      and "processRule r [] = (if nullish r then Inl TypeError else processLeaf r [])"
      by (auto simp: processRule.simps [of r])
    then show ?thesis
      by (simp add: processLeaf_shift [of r ps])
  next
    case False
    show ?thesis
    proof (cases "conditionsOf r")
      case (Inl e)
      with False show ?thesis by (simp add: processRule.simps [of r])
    next
      case (Inr cs)
      have "\<And>c qs. c \<in> set cs \<Longrightarrow> processRule c qs = shiftP qs (processRule c [])"
        using less.IH size_child_less [OF Inr] by blast
      then have cs: "processConditions cs ps = shiftP ps (processConditions cs [])"
        by (rule processConditions_shift)
      show ?thesis
      proof (cases "processConditions cs []")
        case (Inl e)
        with False Inr cs show ?thesis by (simp add: processRule.simps [of r])
      next
        case inr: (Inr rr)
        obtain ss ws where "rr = (ss, ws)" by (cases rr)
        with False Inr cs inr show ?thesis by (simp add: processRule.simps [of r] Let_def)
      qed
    qed
  qed
qed

lemma processRule_Inr_eq:
  "processRule r ps = Inr (q, ps') \<longleftrightarrow>
     \<not> isl (processRule r []) \<and> q = ruleQuery r \<and> ps' = ps @ rulePushed r"
  by (subst processRule_shift)
     (auto simp: ruleQuery_def rulePushed_def shiftP_def split: sum.splits)

lemma processRule_isl: "isl (processRule r ps) \<longleftrightarrow> isl (processRule r [])"
  by (subst processRule_shift) (auto simp: shiftP_def split: sum.splits)

lemma processConditions_Inr_eq:
  "processConditions cs ps = Inr (ss, ps') \<longleftrightarrow>
     (\<forall>c\<in>set cs. \<not> isl (processRule c [])) \<and> ss = map ruleQuery cs \<and>
     ps' = ps @ concat (map rulePushed cs)"
proof (induction cs arbitrary: ps ss ps')
  case Nil
  show ?case by auto
next
  case (Cons c cs)
  show ?case
  proof (cases "processRule c ps")
    case (Inl e)
    then have "isl (processRule c [])" using processRule_isl [of c ps] by simp
    with Inl show ?thesis by simp
  next
    case (Inr r)
    obtain q qs where r: "r = (q, qs)" by (cases r)
    from Inr r have c: "\<not> isl (processRule c [])" "q = ruleQuery c" "qs = ps @ rulePushed c"
      by (simp_all add: processRule_Inr_eq)
    show ?thesis
    proof (cases "processConditions cs qs")
      case (Inl e)
      then have "\<not> (\<forall>c\<in>set cs. \<not> isl (processRule c []))"
        using Cons.IH [of qs] by (metis Inl_Inr_False)
      with Inl Inr r show ?thesis by simp
    next
      case inr: (Inr rr)
      obtain ts ws where rr: "rr = (ts, ws)" by (cases rr)
      from inr rr Cons.IH [of qs ts ws]
      have "(\<forall>c\<in>set cs. \<not> isl (processRule c []))" "ts = map ruleQuery cs"
        "ws = qs @ concat (map rulePushed cs)" by simp_all
      with inr rr Inr r c show ?thesis by auto
    qed
  qed
qed

lemma isComposite_not_nullish: "isComposite r \<Longrightarrow> \<not> nullish r"
  by (cases r) (simp_all add: isComposite_def)

lemma processRule_composite:
  assumes "isComposite r" and "conditionsOf r = Inr cs"
  shows "processRule r [] =
    (if \<forall>c\<in>set cs. \<not> isl (processRule c [])
     then Inr (compositeText (operatorText r) (map ruleQuery cs), concat (map rulePushed cs))
     else Inl (projl (processConditions cs [])))"
proof (cases "processConditions cs []")
  case (Inl e)
  then have "\<not> (\<forall>c\<in>set cs. \<not> isl (processRule c []))"
    using processConditions_Inr_eq [of cs "[]"] by (metis Inl_Inr_False)
  with Inl assms show ?thesis
    by (simp add: processRule.simps [of r] isComposite_not_nullish)
next
  case (Inr rr)
  obtain ts ws where rr: "rr = (ts, ws)" by (cases rr)
  with Inr have "\<forall>c\<in>set cs. \<not> isl (processRule c [])" "ts = map ruleQuery cs"
    "ws = concat (map rulePushed cs)"
    using processConditions_Inr_eq [of cs "[]" ts ws] by simp_all
  with Inr rr assms show ?thesis
    by (simp add: processRule.simps [of r] isComposite_not_nullish compositeText_def Let_def)
qed

lemma processLeaf_TypeError: "processLeaf r ps = Inl e \<Longrightarrow> e = TypeError"
  by (auto simp: processLeaf_def switchField_def Let_def split: if_splits sum.splits)

lemma processConditions_TypeError:
  assumes "\<And>c qs e. c \<in> set cs \<Longrightarrow> processRule c qs = Inl e \<Longrightarrow> e = TypeError"
  shows "processConditions cs ps = Inl e \<Longrightarrow> e = TypeError"
  using assms
proof (induction cs arbitrary: ps)
  case Nil
  then show ?case by simp
next
  case (Cons c cs)
  show ?case
  proof (cases "processRule c ps")
    case (Inl e')
    with Cons.prems(1) have "e' = e" by simp
    with Inl Cons.prems(2) [of c ps e] show ?thesis by simp
  next
    case (Inr r)
    obtain q qs where "r = (q, qs)" by (cases r)
    with Inr Cons.prems(1) have "processConditions cs qs = Inl e"
      by (simp split: sum.splits prod.splits)
    moreover have "\<And>c' qs e. c' \<in> set cs \<Longrightarrow> processRule c' qs = Inl e \<Longrightarrow> e = TypeError"
      using Cons.prems(2) by (meson list.set_intros(2))
    ultimately show ?thesis
      using Cons.IH by blast
  qed
qed

lemma processRule_TypeError: "processRule r ps = Inl e \<Longrightarrow> e = TypeError"
proof (induction r arbitrary: ps e rule: measure_induct_rule [of size])
  case (less r)
  show ?case
  proof (cases "nullish r \<or> \<not> isComposite r")
    case True
    with less.prems show ?thesis
      by (auto simp: processRule.simps [of r] split: if_splits dest: processLeaf_TypeError)
  next
    case False
    show ?thesis
    proof (cases "conditionsOf r")
      case (Inl e')
      then have "e' = TypeError"
        by (auto simp: conditionsOf_def split: json.splits)
      with Inl False less.prems show ?thesis
        by (simp add: processRule.simps [of r])
    next
      case (Inr cs)
      have ih: "\<And>c qs e. c \<in> set cs \<Longrightarrow> processRule c qs = Inl e \<Longrightarrow> e = TypeError"
        using less.IH size_child_less [OF Inr] by blast
      from Inr False less.prems have "processConditions cs ps = Inl e"
        by (simp add: processRule.simps [of r] Let_def split: sum.splits if_splits prod.splits)
      then show ?thesis
        using ih by (rule processConditions_TypeError [rotated])
    qed
  qed
qed

lemma compiledQuery_eq: "compiledQuery r = ruleQuery r"
  by (simp add: compiledQuery_def ruleQuery_def buildSegmentQuery_def split: sum.splits)

lemma compiledParams_eq: "compiledParams r = rulePushed r"
  by (simp add: compiledParams_def rulePushed_def buildSegmentQuery_def split: sum.splits)

lemma isl_buildSegmentQuery: "isl (buildSegmentQuery r) \<longleftrightarrow> isl (processRule r [])"
  by (simp add: buildSegmentQuery_def split: sum.splits)

lemma buildSegmentQuery_Inr_eq:
  "buildSegmentQuery r = Inr res \<longleftrightarrow>
     \<not> isl (processRule r []) \<and> res = \<lparr>query = ruleQuery r, params = rulePushed r\<rparr>"
  by (auto simp: buildSegmentQuery_def ruleQuery_def rulePushed_def split: sum.splits)

subsection \<open>Single leaves\<close>

lemma switchField_arity':
  "(case switchField f oper v of Inl e \<Rightarrow> True | Inr (q, vs) \<Rightarrow> placeholders q = length vs)"
  by (simp add: switchField_def placeholders_def)

lemma switchField_empty':
  "(case switchField f oper v of Inl e \<Rightarrow> True | Inr (q, vs) \<Rightarrow> q = [] \<longrightarrow> vs = [])"
  by (simp add: switchField_def)

lemma switchField_leafArity':
  "(case switchField f oper v of Inl e \<Rightarrow> True | Inr (q, vs) \<Rightarrow> q \<noteq> [] \<longrightarrow>
   length vs = (if oper = JStr ''between'' then 2 else if oper = JStr ''is_null'' then 0 else 1))"
  by (simp add: switchField_def)






lemma processLeaf_placeholders:
  assumes "processLeaf l [] = Inr (q, vs)"
  shows "placeholders q = length vs"
proof (cases "\<not> truthy (jsprop l ''field'') \<or> \<not> truthy (jsprop l ''operator'')
              \<or> jsprop l ''value'' = JUndefined")
  case True
  with assms show ?thesis by (auto simp: processLeaf_def placeholders_def)
next
  case False
  with assms show ?thesis
    using switchField_arity' [where f = "jsprop l ''field''" and oper = "jsprop l ''operator''" and v = "jsprop l ''value''"]
    by (auto simp: processLeaf_def split: sum.splits)
qed

lemma processLeaf_dropped:
  assumes "processLeaf l [] = Inr ([], vs)"
  shows "vs = []"
proof (cases "\<not> truthy (jsprop l ''field'') \<or> \<not> truthy (jsprop l ''operator'')
              \<or> jsprop l ''value'' = JUndefined")
  case True
  with assms show ?thesis by (auto simp: processLeaf_def)
next
  case False
  with assms show ?thesis
    using switchField_empty' [where f = "jsprop l ''field''" and oper = "jsprop l ''operator''" and v = "jsprop l ''value''"]
    by (auto simp: processLeaf_def split: sum.splits)
qed

lemma processLeaf_arity:
  assumes "processLeaf l [] = Inr (q, vs)" and "q \<noteq> []"
  shows "length vs = leafArity l"
proof (cases "\<not> truthy (jsprop l ''field'') \<or> \<not> truthy (jsprop l ''operator'')
              \<or> jsprop l ''value'' = JUndefined")
  case True
  with assms show ?thesis by (auto simp: processLeaf_def)
next
  case False
  with assms show ?thesis
    using switchField_leafArity' [where f = "jsprop l ''field''" and oper = "jsprop l ''operator''" and v = "jsprop l ''value''"]
    by (auto simp: processLeaf_def leafArity_def split: sum.splits)
qed





subsection \<open>Placeholders and leaves of a whole tree\<close>

lemma placeholders_append: "placeholders (a @ b) = placeholders a + placeholders b"
  by (simp add: placeholders_def)

lemma placeholders_join:
  "placeholders sep = 0 \<Longrightarrow> placeholders (join sep ss) = sum_list (map placeholders ss)"
  by (induction sep ss rule: join.induct) (simp_all add: placeholders_append, simp add: placeholders_def)

lemma placeholders_surviving:
  "sum_list (map placeholders (filter (\<lambda>e. e \<noteq> []) es)) = sum_list (map placeholders es)"
  by (induction es) (simp_all add: placeholders_def)

lemma placeholders_compositeText:
  "placeholders oper = 0 \<Longrightarrow>
   placeholders (compositeText oper es) = sum_list (map placeholders es)"
proof -
  assume o: "placeholders oper = 0"
  have sep: "placeholders ('' '' @ oper @ '' '') = 0"
    using o by (simp add: placeholders_def)
  show ?thesis
  proof (cases "filter (\<lambda>e. e \<noteq> []) es = []")
    case True
    with placeholders_surviving [of es] show ?thesis
      by (simp add: compositeText_def placeholders_def)
  next
    case False
    have "placeholders (compositeText oper es)
            = placeholders (join ('' '' @ oper @ '' '') (filter (\<lambda>e. e \<noteq> []) es))"
      using False by (simp add: compositeText_def placeholders_def)
    also have "\<dots> = sum_list (map placeholders (filter (\<lambda>e. e \<noteq> []) es))"
      by (rule placeholders_join [OF sep])
    finally show ?thesis by (simp add: placeholders_surviving)
  qed
qed

lemma placeholders_operatorText: "isComposite r \<Longrightarrow> placeholders (operatorText r) = 0"
  by (auto simp: isComposite_def operatorText_def placeholders_def)

lemma concat_map_concat:
  "concat (map f (concat xss)) = concat (map (\<lambda>xs. concat (map f xs)) xss)"
  by (induction xss) simp_all

lemma sum_list_if_filter:
  "sum_list (map (\<lambda>x. if P x then f x else (0::nat)) xs) = sum_list (map f (filter P xs))"
  by (induction xs) simp_all

lemma leaves_unfold:
  "leaves rule =
    (if isComposite rule
     then (case conditionsOf rule of Inr cs \<Rightarrow> concat (map leaves cs) | Inl e \<Rightarrow> [])
     else [rule])"
  by (subst leaves.simps) (simp add: isComposite_def conditionsOf_def split: json.splits)

lemma join_Cons: "join sep (x # xs) = x @ concat (map (\<lambda>y. sep @ y) xs)"
  by (induction xs arbitrary: x) simp_all

lemma compositeText_eq:
  "compositeText oper es =
     (case filter (\<lambda>x. x \<noteq> []) es of
        [] \<Rightarrow> []
      | x # xs \<Rightarrow> ''('' @ x @ concat (map (\<lambda>y. '' '' @ oper @ '' '' @ y) xs) @ '')'')"
  by (simp add: compositeText_def Let_def join_Cons split: list.splits)


lemma rule_leaves:
  "\<not> isl (processRule r []) \<Longrightarrow>
     rulePushed r = concat (map leafPushed (leaves r)) \<and>
     (\<forall>l\<in>set (leaves r). \<not> isl (processLeaf l [])) \<and>
     placeholders (ruleQuery r) = length (rulePushed r)"
proof (induction r rule: measure_induct_rule [of size])
  case (less r)
  from less.prems have nn: "\<not> nullish r"
    by (auto simp: processRule.simps [of r])
  show ?case
  proof (cases "isComposite r")
    case False
    with nn have eq: "processRule r [] = processLeaf r []"
      by (simp add: processRule.simps [of r])
    with less.prems obtain q vs where qv: "processLeaf r [] = Inr (q, vs)"
      by (cases "processLeaf r []") auto
    from False have "leaves r = [r]" by (simp add: leaves_unfold [of r])
    with eq qv processLeaf_placeholders [OF qv] show ?thesis
      by (simp add: rulePushed_def ruleQuery_def leafPushed_def)
  next
    case True
    with nn less.prems obtain cs where cs: "conditionsOf r = Inr cs"
      by (cases "conditionsOf r") (auto simp: processRule.simps [of r])
    from processRule_composite [OF True cs] less.prems
    have all: "\<forall>c\<in>set cs. \<not> isl (processRule c [])"
      and res: "processRule r [] =
        Inr (compositeText (operatorText r) (map ruleQuery cs), concat (map rulePushed cs))"
      by (auto split: if_splits)
    have ih: "\<And>c. c \<in> set cs \<Longrightarrow>
        rulePushed c = concat (map leafPushed (leaves c)) \<and>
        (\<forall>l\<in>set (leaves c). \<not> isl (processLeaf l [])) \<and>
        placeholders (ruleQuery c) = length (rulePushed c)"
      using less.IH size_child_less [OF cs] all by blast
    have lv: "leaves r = concat (map leaves cs)"
      using True cs by (simp add: leaves_unfold [of r])
    have q: "ruleQuery r = compositeText (operatorText r) (map ruleQuery cs)"
      and p: "rulePushed r = concat (map rulePushed cs)"
      using res by (simp_all add: ruleQuery_def rulePushed_def)
    have m: "map rulePushed cs = map (\<lambda>c. concat (map leafPushed (leaves c))) cs"
      using ih by simp
    have 1: "rulePushed r = concat (map leafPushed (leaves r))"
      by (subst p, subst m) (simp add: lv concat_map_concat o_def)
    have 2: "\<forall>l\<in>set (leaves r). \<not> isl (processLeaf l [])"
      using ih by (auto simp: lv)
    have "placeholders (ruleQuery r) = sum_list (map placeholders (map ruleQuery cs))"
      unfolding q by (rule placeholders_compositeText [OF placeholders_operatorText [OF True]])
    also have "\<dots> = sum_list (map (\<lambda>c. length (rulePushed c)) cs)"
      using ih by (simp add: o_def cong: map_cong)
    also have "\<dots> = length (rulePushed r)"
      by (simp add: p length_concat o_def)
    finally show ?thesis using 1 2 by simp
  qed
qed


subsection \<open>The receipt handler\<close>

lemma execute_Inr_iff:
  "execute e stmt w = (Inr x, w') \<longleftrightarrow>
     faults e (calls w) = None \<and> stmt (clock e (calls w)) (w\<lparr>calls := calls w + 1\<rparr>) = (x, w')"
  by (auto simp: execute_def Let_def split: option.splits prod.splits)

lemma execute_Inl_iff:
  "execute e stmt w = (Inl msg, w') \<longleftrightarrow>
     faults e (calls w) = Some msg \<and> w' = w\<lparr>calls := calls w + 1\<rparr>"
  by (auto simp: execute_def Let_def split: option.splits prod.splits)

lemma applyReceipt_Inr:
  assumes "applyReceipt e mid s rc w1 = (Inr u, w2)"
  shows "map msg_status (communication_log w2)
           = map (\<lambda>m. if msg_id m = mid then receiptStatus s (msg_status m) else msg_status m)
               (communication_log w1)"
    and "map msg_id (communication_log w2) = map msg_id (communication_log w1)"
    and "map msg_campaign_id (communication_log w2) = map msg_campaign_id (communication_log w1)"
    and "campaigns w2 = campaigns w1"
  using assms
  by (auto simp: applyReceipt_def execute_Inr_iff updateLog_def receiptStatus_def setDelivered_def
      setFailed_def split: if_splits)

lemma finishCampaign_processed:
  assumes "finishCampaign e cid w2 = (ReceiptProcessed, w')"
  shows "communication_log w' = communication_log w2"
    and "\<exists>t. campaigns w' =
      (let rows = filter (\<lambda>m. msg_campaign_id m = cid) (communication_log w2)
       in if bigintAsString e = decimalAsString e \<and>
             length (filter isProcessed rows) = length rows \<and> length rows > 0
          then map (\<lambda>c. if camp_id c = cid then c\<lparr>camp_status := CSent, camp_sent_at := Some t\<rparr> else c)
                 (campaigns w2)
          else campaigns w2)"
proof -
  let ?rows = "filter (\<lambda>m. msg_campaign_id m = cid) (communication_log w2)"
  obtain r w1 where ex: "execute e (campaignStats e cid) w2 = (r, w1)"
    by (cases "execute e (campaignStats e cid) w2")
  with assms obtain tc pc where r: "r = Inr (tc, pc)"
    by (cases r) (auto simp: finishCampaign_def)
  from ex r have st: "campaignStats e cid (clock e (calls w2)) (w2\<lparr>calls := calls w2 + 1\<rparr>) = ((tc, pc), w1)"
    by (simp add: execute_Inr_iff)
  then have w1: "w1 = w2\<lparr>calls := calls w2 + 1\<rparr>"
    and tc: "tc = (if bigintAsString e then SqlString (length ?rows) else SqlNumber (length ?rows))"
    and pc: "pc = (if ?rows = [] then SqlNull
                   else if decimalAsString e then SqlString (length (filter isProcessed ?rows))
                   else SqlNumber (length (filter isProcessed ?rows)))"
    by (auto simp: campaignStats_def Let_def)
  have test: "strictEquals pc tc \<and> greaterThanZero tc \<longleftrightarrow>
      bigintAsString e = decimalAsString e \<and>
      length (filter isProcessed ?rows) = length ?rows \<and> length ?rows > 0"
    unfolding tc pc by (cases "?rows = []") auto
  show "communication_log w' = communication_log w2"
    using assms ex r w1
    by (auto simp: finishCampaign_def execute_Inr_iff updateCampaign_def
        split: if_splits prod.splits sum.splits)
  show "\<exists>t. campaigns w' =
      (let rows = filter (\<lambda>m. msg_campaign_id m = cid) (communication_log w2)
       in if bigintAsString e = decimalAsString e \<and>
             length (filter isProcessed rows) = length rows \<and> length rows > 0
          then map (\<lambda>c. if camp_id c = cid then c\<lparr>camp_status := CSent, camp_sent_at := Some t\<rparr> else c)
                 (campaigns w2)
          else campaigns w2)"
  proof (cases "strictEquals pc tc \<and> greaterThanZero tc")
    case True
    with assms ex r w1 have "\<exists>t. campaigns w' =
        map (\<lambda>c. if camp_id c = cid then c\<lparr>camp_status := CSent, camp_sent_at := Some t\<rparr> else c)
          (campaigns w2)"
      by (auto simp: finishCampaign_def execute_Inr_iff updateCampaign_def setCampaignSent_def
          split: prod.splits sum.splits)
    moreover from True have "bigintAsString e = decimalAsString e \<and>
        length (filter isProcessed ?rows) = length ?rows \<and> length ?rows > 0"
      by (rule iffD1 [OF test])
    ultimately show ?thesis unfolding Let_def by (simp only: simp_thms if_True)
  next
    case False
    with assms ex r w1 have "campaigns w' = campaigns w2"
      by (auto simp: finishCampaign_def)
    moreover from False have "\<not> (bigintAsString e = decimalAsString e \<and>
        length (filter isProcessed ?rows) = length ?rows \<and> length ?rows > 0)"
      unfolding test .
    ultimately show ?thesis unfolding Let_def by (simp only: if_False simp_thms)
  qed
qed

lemma deliveryReceipt_processed:
  assumes "deliveryReceipt e rc w = (ReceiptProcessed, w')"
  obtains mid s entry rest w2 where
    "rc_message_id rc = Some mid" "rc_status rc = Some s"
    "filter (\<lambda>m. msg_id m = mid) (communication_log w) = entry # rest"
    "applyReceipt e mid s rc (w\<lparr>calls := calls w + 1\<rparr>) = (Inr (), w2)"
    "finishCampaign e (msg_campaign_id entry) w2 = (ReceiptProcessed, w')"
proof -
  from assms obtain mid s where ms: "rc_message_id rc = Some mid" "rc_status rc = Some s"
    by (auto simp: deliveryReceipt_def split: option.splits)
  with assms have nz: "mid \<noteq> 0" "s \<noteq> []"
    by (auto simp: deliveryReceipt_def split: if_splits)
  obtain r w1 where ex: "execute e (selectLog mid) w = (r, w1)"
    by (cases "execute e (selectLog mid) w")
  with assms ms nz obtain entry rest where r: "r = Inr (entry # rest)"
    by (cases r; cases "projr r") (auto simp: deliveryReceipt_def)
  from ex r have w1: "w1 = w\<lparr>calls := calls w + 1\<rparr>"
    and f: "filter (\<lambda>m. msg_id m = mid) (communication_log w) = entry # rest"
    by (auto simp: execute_Inr_iff selectLog_def)
  obtain r2 w2 where ap: "applyReceipt e mid s rc w1 = (r2, w2)"
    by (cases "applyReceipt e mid s rc w1")
  with assms ms nz ex r have r2: "r2 = Inr ()"
    and fin: "finishCampaign e (msg_campaign_id entry) w2 = (ReceiptProcessed, w')"
    by (cases r2; auto simp: deliveryReceipt_def)+
  from that [OF ms f] ap r2 fin w1 show thesis by simp
qed

lemma deliveryReceipt_rows:
  assumes "deliveryReceipt e rc w = (ReceiptProcessed, w')"
    and "rc_message_id rc = Some mid" and "rc_status rc = Some s"
  shows "map (\<lambda>m. (msg_id m, msg_status m)) (communication_log w')
           = map (\<lambda>m. (msg_id m, if msg_id m = mid then receiptStatus s (msg_status m)
                                    else msg_status m)) (communication_log w)"
proof -
  from assms(1) obtain mid' s' entry rest w2 where d:
    "rc_message_id rc = Some mid'" "rc_status rc = Some s'"
    "filter (\<lambda>m. msg_id m = mid') (communication_log w) = entry # rest"
    "applyReceipt e mid' s' rc (w\<lparr>calls := calls w + 1\<rparr>) = (Inr (), w2)"
    "finishCampaign e (msg_campaign_id entry) w2 = (ReceiptProcessed, w')"
    by (rule deliveryReceipt_processed)
  with assms have eq: "mid' = mid" "s' = s" by simp_all
  have "communication_log w' = communication_log w2"
    using d(5) by (rule finishCampaign_processed(1))
  moreover have "map (\<lambda>m. (msg_id m, msg_status m)) (communication_log w2)
           = map (\<lambda>m. (msg_id m, if msg_id m = mid then receiptStatus s (msg_status m)
                                    else msg_status m)) (communication_log w)"
    using d(4) unfolding eq
    by (auto simp: applyReceipt_def execute_Inr_iff updateLog_def receiptStatus_def
        setDelivered_def setFailed_def split: if_splits)
  ultimately show ?thesis by simp
qed

lemma receiptStatus_idem: "receiptStatus s (receiptStatus s x) = receiptStatus s x"
  by (simp add: receiptStatus_def)

lemmas handler_defs = deliveryReceipt_def applyReceipt_def finishCampaign_def execute_def
  selectLog_def updateLog_def updateCampaign_def campaignStats_def setDelivered_def setFailed_def
  setCampaignSent_def isProcessed_def exampleEnv_def worldWith_def message_def campaign_def
  deliveredReceipt_def noFault_def Let_def

subsection \<open>The two loops of the dispatch\<close>

lemma createLogs_result:
  "createLogs e cid tmpl cs logs w = (r, w') \<Longrightarrow>
   \<exists>rows. communication_log w' = communication_log w @ rows \<and>
     length rows \<le> length cs \<and>
     map msg_id rows = [next_log_id w ..< next_log_id w + length rows] \<and>
     map (\<lambda>m. (msg_customer_id m, msg_status m)) rows
       = map (\<lambda>c. (cust_id c, MPending)) (take (length rows) cs) \<and>
     (\<forall>m\<in>set rows. msg_campaign_id m = cid) \<and>
     next_log_id w' = next_log_id w + length rows \<and>
     campaigns w' = campaigns w \<and>
     (case r of
        Inr logs' \<Rightarrow> length rows = length cs \<and> map log_id logs' = map log_id logs @ map msg_id rows
      | Inl err \<Rightarrow> length rows < length cs)"
proof (induction cs arbitrary: logs w)
  case Nil
  then show ?case by auto
next
  case (Cons c cs)
  let ?content = "personalize e tmpl c"
  obtain x w1 where ex: "execute e (insertLog cid (cust_id c) ?content) w = (x, w1)"
    by (cases "execute e (insertLog cid (cust_id c) ?content) w")
  show ?case
  proof (cases x)
    case (Inl msg)
    with ex Cons.prems have "r = Inl (DbError msg)" "w' = w1" by (simp_all add: Let_def)
    moreover from ex Inl have "w1 = w\<lparr>calls := calls w + 1\<rparr>" by (simp add: execute_Inl_iff)
    ultimately show ?thesis by (intro exI [of _ "[]"]) simp
  next
    case (Inr insertId)
    let ?row = "\<lparr>msg_id = next_log_id w, msg_campaign_id = cid, msg_customer_id = cust_id c,
            msg_content = ?content, msg_status = MPending, msg_sent_at = None,
            msg_delivered_at = None, msg_failure_reason = None, msg_vendor_message_id = None,
            msg_updated_at = clock e (calls w)\<rparr>"
    from ex Inr have w1: "communication_log w1 = communication_log w @ [?row]"
      "next_log_id w1 = next_log_id w + 1" "campaigns w1 = campaigns w" "insertId = next_log_id w"
      by (auto simp: execute_Inr_iff insertLog_def)
    let ?logs = "logs @ [\<lparr>log_id = insertId, log_customer_id = cust_id c,
                         log_message_content = ?content\<rparr>]"
    from ex Inr Cons.prems have rec: "createLogs e cid tmpl cs ?logs w1 = (r, w')"
      by (simp add: Let_def)
    from Cons.IH [OF rec] obtain rows where rows:
      "communication_log w' = communication_log w1 @ rows"
      "length rows \<le> length cs"
      "map msg_id rows = [next_log_id w1 ..< next_log_id w1 + length rows]"
      "map (\<lambda>m. (msg_customer_id m, msg_status m)) rows
         = map (\<lambda>c. (cust_id c, MPending)) (take (length rows) cs)"
      "\<forall>m\<in>set rows. msg_campaign_id m = cid"
      "next_log_id w' = next_log_id w1 + length rows"
      "campaigns w' = campaigns w1"
      "(case r of
        Inr logs' \<Rightarrow> length rows = length cs \<and> map log_id logs' = map log_id ?logs @ map msg_id rows
      | Inl err \<Rightarrow> length rows < length cs)"
      by blast
    have ids: "map msg_id (?row # rows) = [next_log_id w ..< next_log_id w + length (?row # rows)]"
    proof -
      have "[next_log_id w ..< next_log_id w + length (?row # rows)]
              = next_log_id w # [Suc (next_log_id w) ..< Suc (next_log_id w) + length rows]"
        by (subst upt_conv_Cons) (simp_all del: upt_Suc)
      with rows(3) w1(2) show ?thesis by (simp del: upt_Suc)
    qed
    show ?thesis
      apply (intro exI [of _ "?row # rows"] conjI)
      subgoal using rows(1) w1(1) by simp
      subgoal using rows(2) by simp
      subgoal by (rule ids)
      subgoal using rows(4) by simp
      subgoal using rows(5) by simp
      subgoal using rows(6) w1(2) by simp
      subgoal using rows(7) w1(3) by simp
      subgoal using rows(8) w1(4) by (auto split: sum.splits)
      done
  qed
qed

lemma list_all2_map_self: "(\<And>x. x \<in> set xs \<Longrightarrow> R x (G x)) \<Longrightarrow> list_all2 R xs (map G xs)"
  by (simp add: list_all2_map2 list_all2_same)

lemma settled_touched: "settled S m m' \<Longrightarrow> touched S m m'"
  by (simp add: settled_def)

lemma touched_refl: "touched S m m"
  by (simp add: touched_def sameRow_def)

lemma touched_trans:
  "touched {a} m m' \<Longrightarrow> touched S m' m'' \<Longrightarrow> touched (insert a S) m m''"
  by (auto simp: touched_def sameRow_def)

lemma settled_trans:
  "settled {a} m m' \<Longrightarrow> settled S m' m'' \<Longrightarrow> settled (insert a S) m m''"
  by (auto simp: settled_def touched_def sameRow_def)

lemma updateLog_settled:
  assumes "\<And>m. msg_status (f m) = MSent \<or> msg_status (f m) = MFailed"
    and "\<And>m. msg_id (f m) = msg_id m \<and> msg_campaign_id (f m) = msg_campaign_id m \<and>
              msg_customer_id (f m) = msg_customer_id m"
    and "updateLog f a w1 = (u, w')"
  shows "list_all2 (settled {a}) (communication_log w1) (communication_log w')"
    and "campaigns w' = campaigns w1" and "next_log_id w' = next_log_id w1"
    and "calls w' = calls w1"
proof -
  from assms(3) have l: "communication_log w' =
      map (\<lambda>m. if msg_id m = a then f m else m) (communication_log w1)"
    and o: "campaigns w' = campaigns w1" "next_log_id w' = next_log_id w1" "calls w' = calls w1"
    by (auto simp: updateLog_def)
  show "list_all2 (settled {a}) (communication_log w1) (communication_log w')"
    unfolding l using assms(1,2)
    by (intro list_all2_map_self) (auto simp: settled_def touched_def sameRow_def)
  from o show "campaigns w' = campaigns w1" "next_log_id w' = next_log_id w1"
    "calls w' = calls w1" by simp_all
qed

lemma setSent_fields:
  "msg_status (setSent v t m) = MSent \<or> msg_status (setSent v t m) = MFailed"
  "msg_id (setSent v t m) = msg_id m \<and> msg_campaign_id (setSent v t m) = msg_campaign_id m \<and>
     msg_customer_id (setSent v t m) = msg_customer_id m"
  by (simp_all add: setSent_def)

lemma setFailed_fields:
  "msg_status (setFailed reason t m) = MSent \<or> msg_status (setFailed reason t m) = MFailed"
  "msg_id (setFailed reason t m) = msg_id m \<and>
     msg_campaign_id (setFailed reason t m) = msg_campaign_id m \<and>
     msg_customer_id (setFailed reason t m) = msg_customer_id m"
  by (simp_all add: setFailed_def)

lemma execute_update_result:
  assumes "\<And>t m. msg_status (f t m) = MSent \<or> msg_status (f t m) = MFailed"
    and "\<And>t m. msg_id (f t m) = msg_id m \<and> msg_campaign_id (f t m) = msg_campaign_id m \<and>
              msg_customer_id (f t m) = msg_customer_id m"
    and "execute e (\<lambda>t. updateLog (f t) a) w = (r, w')"
  shows "campaigns w' = campaigns w \<and> next_log_id w' = next_log_id w \<and>
         calls w' = calls w + 1 \<and>
         (case r of
            Inr u \<Rightarrow> list_all2 (settled {a}) (communication_log w) (communication_log w')
          | Inl msg \<Rightarrow> communication_log w' = communication_log w)"
proof (cases r)
  case (Inl msg)
  with assms(3) show ?thesis by (simp add: execute_Inl_iff)
next
  case (Inr u)
  with assms(3) have u: "updateLog (f (clock e (calls w))) a (w\<lparr>calls := calls w + 1\<rparr>) = (u, w')"
    by (simp add: execute_Inr_iff)
  from updateLog_settled [OF assms(1,2) u] Inr show ?thesis by simp
qed

lemma sendOne_result:
  assumes "sendOne e entry w = (r, w')"
  shows "campaigns w' = campaigns w \<and> next_log_id w' = next_log_id w \<and> calls w < calls w' \<and>
         (case r of
            Inr u \<Rightarrow> list_all2 (settled {log_id entry}) (communication_log w) (communication_log w')
          | Inl err \<Rightarrow> communication_log w' = communication_log w)"
proof -
  let ?first =
       "(if vendorAccepts e (calls w)
        then execute e (\<lambda>t. updateLog (setSent (DispatchId (clock e (calls w)) (log_customer_id entry)) t)
                               (log_id entry)) w
        else execute e (\<lambda>t. updateLog (setFailed ''Vendor API error'' t) (log_id entry)) w)"
  obtain r1 w1 where first: "?first = (r1, w1)" by (cases ?first)
  have f: "campaigns w1 = campaigns w \<and> next_log_id w1 = next_log_id w \<and>
         calls w1 = calls w + 1 \<and>
         (case r1 of
            Inr u \<Rightarrow> list_all2 (settled {log_id entry}) (communication_log w) (communication_log w1)
          | Inl msg \<Rightarrow> communication_log w1 = communication_log w)"
  proof (cases "vendorAccepts e (calls w)")
    case True
    with first show ?thesis
      by (intro execute_update_result [where f = "setSent (DispatchId (clock e (calls w)) (log_customer_id entry))"])
         (simp_all add: setSent_fields)
  next
    case False
    with first show ?thesis
      by (intro execute_update_result [where f = "setFailed ''Vendor API error''"])
         (simp_all add: setFailed_fields)
  qed
  show ?thesis
  proof (cases r1)
    case (Inr u)
    with assms first have "r = Inr ()" "w' = w1"
      by (simp_all add: sendOne_def Let_def)
    with f Inr show ?thesis by simp
  next
    case (Inl msg)
    obtain r2 w2 where second:
      "execute e (\<lambda>t. updateLog (setFailed msg t) (log_id entry)) w1 = (r2, w2)"
      by (cases "execute e (\<lambda>t. updateLog (setFailed msg t) (log_id entry)) w1")
    have s: "campaigns w2 = campaigns w1 \<and> next_log_id w2 = next_log_id w1 \<and>
         calls w2 = calls w1 + 1 \<and>
         (case r2 of
            Inr u \<Rightarrow> list_all2 (settled {log_id entry}) (communication_log w1) (communication_log w2)
          | Inl msg \<Rightarrow> communication_log w2 = communication_log w1)"
      using second
      by (intro execute_update_result [where f = "setFailed msg"]) (simp_all add: setFailed_fields)
    from assms first Inl second have rw: "w' = w2"
      "r = (case r2 of Inr u \<Rightarrow> Inr () | Inl msg' \<Rightarrow> Inl (DbError msg'))"
      by (simp_all add: sendOne_def Let_def split: sum.splits)
    from f Inl have l1: "communication_log w1 = communication_log w" by simp
    show ?thesis
      using f s rw l1 by (cases r2) simp_all
  qed
qed

lemma sendLogs_result:
  "sendLogs e logs w = (r, w') \<Longrightarrow>
   campaigns w' = campaigns w \<and> next_log_id w' = next_log_id w \<and>
   list_all2 (touched (log_id ` set logs)) (communication_log w) (communication_log w') \<and>
   (r = Inr () \<longrightarrow>
      list_all2 (settled (log_id ` set logs)) (communication_log w) (communication_log w'))"
proof (induction logs arbitrary: w)
  case Nil
  then show ?case
    by (auto simp: list_all2_same touched_def sameRow_def settled_def)
next
  case (Cons entry logs)
  obtain r1 w1 where one: "sendOne e entry w = (r1, w1)" by (cases "sendOne e entry w")
  note o = sendOne_result [OF one]
  show ?case
  proof (cases r1)
    case (Inl err)
    with one Cons.prems have "r = Inl err" "w' = w1" by simp_all
    with o Inl show ?thesis
      by (auto simp: list_all2_same touched_def sameRow_def)
  next
    case (Inr u)
    with one Cons.prems have rec: "sendLogs e logs w1 = (r, w')" by simp
    note ih = Cons.IH [OF rec]
    from o Inr have s1: "list_all2 (settled {log_id entry}) (communication_log w) (communication_log w1)"
      by simp
    then have t1: "list_all2 (touched {log_id entry}) (communication_log w) (communication_log w1)"
      by (rule list_all2_mono) (rule settled_touched)
    have t: "list_all2 (touched (log_id ` set (entry # logs))) (communication_log w) (communication_log w')"
      using t1 ih
      by (auto intro: list_all2_trans [where ?P1.0 = "touched {log_id entry}"
            and ?P2.0 = "touched (log_id ` set logs)", rotated] touched_trans)
    have s: "list_all2 (settled (log_id ` set (entry # logs))) (communication_log w) (communication_log w')"
      if "r = Inr ()"
      using s1 ih that
      by (auto intro: list_all2_trans [where ?P1.0 = "settled {log_id entry}"
            and ?P2.0 = "settled (log_id ` set logs)", rotated] settled_trans)
    from o ih t s show ?thesis by simp
  qed
qed

lemma settled_counts:
  "\<forall>m\<in>set vs. msg_campaign_id m = cid \<and> (msg_status m = MSent \<or> msg_status m = MFailed) \<Longrightarrow>
   filter (\<lambda>m. msg_campaign_id m = cid) vs = vs \<and>
   length (filter (\<lambda>m. msg_campaign_id m = cid \<and> msg_status m = MSent) vs)
     + length (filter (\<lambda>m. msg_campaign_id m = cid \<and> msg_status m = MFailed) vs) = length vs \<and>
   filter (\<lambda>m. msg_campaign_id m = cid \<and> msg_status m = MPending) vs = []"
  by (induction vs) auto

lemma dispatch_loops:
  assumes wf: "\<forall>m\<in>set (communication_log w). msg_id m < next_log_id w"
    and fresh: "\<forall>m\<in>set (communication_log w). msg_campaign_id m \<noteq> cid"
    and c: "createLogs e cid tmpl audience [] w = (Inr logs, w1)"
    and s: "sendLogs e logs w1 = (Inr (), w2)"
  shows "length logs = length audience"
    and "map (\<lambda>m. (msg_customer_id m, msg_status m))
           (filter (\<lambda>m. msg_campaign_id m = cid) (communication_log w1))
         = map (\<lambda>c. (cust_id c, MPending)) audience"
    and "map msg_customer_id (filter (\<lambda>m. msg_campaign_id m = cid) (communication_log w2))
         = map cust_id audience"
    and "\<forall>m\<in>set (filter (\<lambda>m. msg_campaign_id m = cid) (communication_log w2)).
           msg_status m = MSent \<or> msg_status m = MFailed"
    and "total_messages cid w2 = length audience"
    and "sent_messages cid w2 + failed_messages cid w2 = length audience"
    and "pending_messages cid w2 = 0"
proof -
  from createLogs_result [OF c] obtain rows where rows:
    "communication_log w1 = communication_log w @ rows"
    "map msg_id rows = [next_log_id w ..< next_log_id w + length rows]"
    "map (\<lambda>m. (msg_customer_id m, msg_status m)) rows
       = map (\<lambda>c. (cust_id c, MPending)) (take (length rows) audience)"
    "\<forall>m\<in>set rows. msg_campaign_id m = cid"
    "length rows = length audience" "map log_id logs = map msg_id rows"
    by auto
  let ?S = "log_id ` set logs"
  have S: "?S = set (map msg_id rows)"
    using rows(6) by (metis set_map)
  have old: "filter (\<lambda>m. msg_campaign_id m = cid) (communication_log w) = []"
    using fresh by (simp add: filter_empty_conv)
  have new: "filter (\<lambda>m. msg_campaign_id m = cid) rows = rows"
    using rows(4) by (simp add: filter_id_conv)
  show len: "length logs = length audience"
    using rows(5,6) by (metis length_map)
  show "map (\<lambda>m. (msg_customer_id m, msg_status m))
           (filter (\<lambda>m. msg_campaign_id m = cid) (communication_log w1))
         = map (\<lambda>c. (cust_id c, MPending)) audience"
    using rows(3,5) by (simp add: rows(1) old new)
  from sendLogs_result [OF s]
  have "list_all2 (settled ?S) (communication_log w @ rows) (communication_log w2)"
    by (simp add: rows(1))
  then obtain us vs where uv: "communication_log w2 = us @ vs"
    "list_all2 (settled ?S) (communication_log w) us" "list_all2 (settled ?S) rows vs"
    by (auto simp: list_all2_append1)
  have "list_all2 (\<lambda>m m'. m' = m) (communication_log w) us"
    using uv(2)
  proof (rule list.rel_mono_strong)
    fix m m' assume "m \<in> set (communication_log w)" and st: "settled ?S m m'"
    with wf have "msg_id m < next_log_id w" by simp
    then have "msg_id m \<notin> ?S" unfolding S rows(2) by simp
    with st show "m' = m" by (simp add: settled_def touched_def sameRow_def)
  qed
  then have us: "us = communication_log w"
    by (induction rule: list_all2_induct) simp_all
  have vs: "list_all2 (\<lambda>m m'. msg_customer_id m' = msg_customer_id m \<and> msg_campaign_id m' = cid \<and>
                (msg_status m' = MSent \<or> msg_status m' = MFailed)) rows vs"
    using uv(3)
  proof (rule list.rel_mono_strong)
    fix m m' assume m: "m \<in> set rows" and st: "settled ?S m m'"
    from m have "msg_id m \<in> ?S" unfolding S by simp
    with st m rows(4)
    show "msg_customer_id m' = msg_customer_id m \<and> msg_campaign_id m' = cid \<and>
                (msg_status m' = MSent \<or> msg_status m' = MFailed)"
      by (simp add: settled_def touched_def sameRow_def)
  qed
  then have cust: "map msg_customer_id vs = map msg_customer_id rows"
    and all: "\<forall>m\<in>set vs. msg_campaign_id m = cid \<and> (msg_status m = MSent \<or> msg_status m = MFailed)"
    and lv: "length vs = length rows"
    by (induction rule: list_all2_induct) simp_all
  note k = settled_counts [OF all]
  have f2: "filter (\<lambda>m. msg_campaign_id m = cid) (communication_log w2) = vs"
    using k by (simp add: uv(1) us old)
  have "map msg_customer_id rows = map cust_id audience"
  proof -
    have "map msg_customer_id rows = map fst (map (\<lambda>m. (msg_customer_id m, msg_status m)) rows)"
      by (simp add: o_def)
    also have "\<dots> = map fst (map (\<lambda>c. (cust_id c, MPending)) audience)"
      using rows(3,5) by simp
    finally show ?thesis by (simp add: o_def)
  qed
  with cust show "map msg_customer_id (filter (\<lambda>m. msg_campaign_id m = cid) (communication_log w2))
         = map cust_id audience"
    by (simp add: f2)
  show "\<forall>m\<in>set (filter (\<lambda>m. msg_campaign_id m = cid) (communication_log w2)).
           msg_status m = MSent \<or> msg_status m = MFailed"
    using all by (simp add: f2)
  show "total_messages cid w2 = length audience"
    by (simp add: total_messages_def f2 lv rows(5))
  show "sent_messages cid w2 + failed_messages cid w2 = length audience"
    using k fresh by (simp add: sent_messages_def failed_messages_def uv(1) us lv rows(5)
        filter_empty_conv)
  show "pending_messages cid w2 = 0"
    using k fresh by (simp add: pending_messages_def uv(1) us filter_empty_conv)
qed

subsection \<open>The whole dispatch\<close>

lemma queryCustomers_result:
  "queryCustomers e clause ps w = (r, w') \<Longrightarrow>
   w' = w\<lparr>calls := calls w + 1\<rparr> \<and> (\<forall>cs. r = Inr cs \<longrightarrow> selectCustomers e clause ps = Inr cs)"
  by (auto simp: queryCustomers_def execute_def Let_def split: option.splits)

lemma tryDispatch_Inr:
  assumes "tryDispatch e cid sid tmpl w = (Inr r, w')"
  obtains rules rest q audience w2 logs w3 w4 t where
    "map seg_rules (filter (\<lambda>s. seg_id s = sid) (segments w)) = Some rules # rest"
    "buildSegmentQuery rules = Inr q"
    "selectCustomers e (query q) (params q) = Inr audience"
    "w2 = w\<lparr>calls := calls w + 2\<rparr>"
    "createLogs e cid tmpl audience [] w2 = (Inr logs, w3)"
    "sendLogs e logs w3 = (Inr (), w4)"
    "communication_log w' = communication_log w4"
    "campaigns w' = map (\<lambda>c. if camp_id c = cid then setCampaignSent t c else c) (campaigns w4)"
    "r = \<lparr>totalSent = length logs, success = True\<rparr>"
proof -
  obtain r1 w1 where e1: "execute e (selectSegmentRules sid) w = (r1, w1)"
    by (cases "execute e (selectSegmentRules sid) w")
  with assms obtain rules rest where r1: "r1 = Inr (Some rules # rest)"
    by (auto simp: tryDispatch_def split: sum.splits list.splits option.splits)
  from e1 r1 have w1: "w1 = w\<lparr>calls := calls w + 1\<rparr>"
    and seg: "map seg_rules (filter (\<lambda>s. seg_id s = sid) (segments w)) = Some rules # rest"
    by (auto simp: execute_Inr_iff selectSegmentRules_def)
  from assms e1 r1 obtain q where q: "buildSegmentQuery rules = Inr q"
    by (cases "buildSegmentQuery rules") (auto simp: tryDispatch_def)
  obtain r2 w2 where e2: "queryCustomers e (query q) (params q) w1 = (r2, w2)"
    by (cases "queryCustomers e (query q) (params q) w1")
  with assms e1 r1 q obtain audience where r2: "r2 = Inr audience"
    by (cases r2) (auto simp: tryDispatch_def)
  from queryCustomers_result [OF e2] r2 w1 have w2: "w2 = w\<lparr>calls := calls w + 2\<rparr>"
    and aud: "selectCustomers e (query q) (params q) = Inr audience" by simp_all
  obtain r3 w3 where e3: "createLogs e cid tmpl audience [] w2 = (r3, w3)"
    by (cases "createLogs e cid tmpl audience [] w2")
  with assms e1 r1 q e2 r2 obtain logs where r3: "r3 = Inr logs"
    by (cases r3) (auto simp: tryDispatch_def)
  obtain r4 w4 where e4: "sendLogs e logs w3 = (r4, w4)"
    by (cases "sendLogs e logs w3")
  with assms e1 r1 q e2 r2 e3 r3 have r4: "r4 = Inr ()"
    by (cases r4) (auto simp: tryDispatch_def)
  obtain r5 w5 where e5: "execute e (\<lambda>t. updateCampaign (setCampaignSent t) cid) w4 = (r5, w5)"
    by (cases "execute e (\<lambda>t. updateCampaign (setCampaignSent t) cid) w4")
  with assms e1 r1 q e2 r2 e3 r3 e4 r4 have r5: "r5 = Inr ()" and fin: "w' = w5"
    "r = \<lparr>totalSent = length logs, success = True\<rparr>"
    by (cases r5; auto simp: tryDispatch_def)+
  from e5 r5 have "communication_log w5 = communication_log w4"
    "campaigns w5 = map (\<lambda>c. if camp_id c = cid then setCampaignSent (clock e (calls w4)) c else c)
        (campaigns w4)"
    by (auto simp: execute_Inr_iff updateCampaign_def)
  then have l: "communication_log w' = communication_log w4"
    and c: "campaigns w' = map (\<lambda>c. if camp_id c = cid then setCampaignSent (clock e (calls w4)) c else c)
        (campaigns w4)"
    by (simp_all add: fin(1))
  from e3 r3 have e3': "createLogs e cid tmpl audience [] w2 = (Inr logs, w3)" by simp
  from e4 r4 have e4': "sendLogs e logs w3 = (Inr (), w4)" by simp
  show thesis
    by (rule that [OF seg q aud w2 e3' e4' l c fin(2)])
qed

lemma sendCampaignMessages_Inr:
  "sendCampaignMessages e cid sid tmpl w = (Inr r, w') \<longleftrightarrow> tryDispatch e cid sid tmpl w = (Inr r, w')"
  by (auto simp: sendCampaignMessages_def split: prod.splits sum.splits)

lemma keepsRows_same: "communication_log w' = communication_log w \<Longrightarrow> keepsRows cid w w'"
  unfolding keepsRows_def
  by (intro exI [of _ "communication_log w"] exI [of _ "[]"])
     (simp add: list_all2_same sameRow_def)

lemma touched_sameRow: "touched S m m' \<Longrightarrow> sameRow m m'"
  by (simp add: touched_def sameRow_def)

lemma keepsRows_loops:
  assumes c: "createLogs e cid tmpl audience logs0 w2 = (r3, w3)"
    and s: "list_all2 (touched S) (communication_log w3) (communication_log w4)"
    and w2: "communication_log w2 = communication_log w" "next_log_id w2 = next_log_id w"
  shows "keepsRows cid w w4"
proof -
  from createLogs_result [OF c] obtain rows where rows:
    "communication_log w3 = communication_log w2 @ rows"
    "map msg_id rows = [next_log_id w2 ..< next_log_id w2 + length rows]"
    "\<forall>m\<in>set rows. msg_campaign_id m = cid"
    by blast
  from s obtain us vs where uv: "communication_log w4 = us @ vs"
    "list_all2 (touched S) (communication_log w2) us" "list_all2 (touched S) rows vs"
    by (auto simp: rows(1) list_all2_append1)
  have ids: "\<forall>m\<in>set rows. msg_id m \<ge> next_log_id w2"
  proof
    fix m assume "m \<in> set rows"
    then have "msg_id m \<in> set (map msg_id rows)" by simp
    then show "msg_id m \<ge> next_log_id w2" unfolding rows(2) by simp
  qed
  have "list_all2 (\<lambda>m m'. msg_campaign_id m' = cid \<and> msg_id m' \<ge> next_log_id w2) rows vs"
    using uv(3)
  proof (rule list.rel_mono_strong)
    fix m m' assume "m \<in> set rows" "touched S m m'"
    with rows(3) ids show "msg_campaign_id m' = cid \<and> msg_id m' \<ge> next_log_id w2"
      by (simp add: touched_def sameRow_def)
  qed
  then have vs: "\<forall>m\<in>set vs. msg_campaign_id m = cid \<and> msg_id m \<ge> next_log_id w2"
    by (induction rule: list_all2_induct) simp_all
  have "list_all2 sameRow (communication_log w2) us"
    using uv(2) by (rule list_all2_mono) (rule touched_sameRow)
  with uv(1) vs show ?thesis
    unfolding keepsRows_def w2 [symmetric] by blast
qed

lemma tryDispatch_Inl:
  assumes "tryDispatch e cid sid tmpl w = (Inl err, w1)"
  shows "campaigns w1 = campaigns w \<and> keepsRows cid w w1"
proof -
  obtain r1 wa where e1: "execute e (selectSegmentRules sid) w = (r1, wa)"
    by (cases "execute e (selectSegmentRules sid) w")
  then have wa: "communication_log wa = communication_log w" "campaigns wa = campaigns w"
    "next_log_id wa = next_log_id w"
    by (cases r1; auto simp: execute_Inr_iff execute_Inl_iff selectSegmentRules_def)+
  show ?thesis
  proof (cases "\<exists>rules rest q. r1 = Inr (Some rules # rest) \<and> buildSegmentQuery rules = Inr q")
    case False
    with assms e1 have "w1 = wa"
      by (auto simp: tryDispatch_def split: sum.splits list.splits option.splits)
    with wa show ?thesis by (simp add: keepsRows_same)
  next
    case True
    then obtain rules rest q where r1: "r1 = Inr (Some rules # rest)"
      and q: "buildSegmentQuery rules = Inr q" by blast
    obtain r2 w2 where e2: "queryCustomers e (query q) (params q) wa = (r2, w2)"
      by (cases "queryCustomers e (query q) (params q) wa")
    from queryCustomers_result [OF e2] wa
    have w2: "communication_log w2 = communication_log w" "campaigns w2 = campaigns w"
      "next_log_id w2 = next_log_id w" by simp_all
    show ?thesis
    proof (cases r2)
      case (Inl msg)
      with assms e1 r1 q e2 have "w1 = w2" by (simp add: tryDispatch_def)
      with w2 show ?thesis by (simp add: keepsRows_same)
    next
      case (Inr audience)
      obtain r3 w3 where e3: "createLogs e cid tmpl audience [] w2 = (r3, w3)"
        by (cases "createLogs e cid tmpl audience [] w2")
      from createLogs_result [OF e3] have c3: "campaigns w3 = campaigns w2" by blast
      show ?thesis
      proof (cases r3)
        case (Inl err3)
        with assms e1 r1 q e2 Inr e3 have "w1 = w3" by (simp add: tryDispatch_def)
        moreover have "keepsRows cid w w3"
          using e3 _ w2(1,3)
          by (rule keepsRows_loops [where S = "{}"]) (simp add: list_all2_same touched_def sameRow_def)
        ultimately show ?thesis using c3 w2 by simp
      next
        case inr3: (Inr logs)
        obtain r4 w4 where e4: "sendLogs e logs w3 = (r4, w4)"
          by (cases "sendLogs e logs w3")
        from sendLogs_result [OF e4] have c4: "campaigns w4 = campaigns w3"
          and t4: "list_all2 (touched (log_id ` set logs)) (communication_log w3) (communication_log w4)"
          by blast+
        have k4: "keepsRows cid w w4"
          using e3 t4 w2(1,3) by (rule keepsRows_loops)
        show ?thesis
        proof (cases r4)
          case (Inl err4)
          with assms e1 r1 q e2 Inr e3 inr3 e4 have "w1 = w4" by (simp add: tryDispatch_def)
          with k4 c4 c3 w2 show ?thesis by simp
        next
          case inr4: (Inr u)
          obtain r5 w5 where e5: "execute e (\<lambda>t. updateCampaign (setCampaignSent t) cid) w4 = (r5, w5)"
            by (cases "execute e (\<lambda>t. updateCampaign (setCampaignSent t) cid) w4")
          with assms e1 r1 q e2 Inr e3 inr3 e4 inr4 obtain msg where r5: "r5 = Inl msg" and "w1 = w5"
            by (cases r5) (auto simp: tryDispatch_def)
          moreover from e5 r5 have "w5 = w4\<lparr>calls := calls w4 + 1\<rparr>"
            by (simp add: execute_Inl_iff)
          ultimately have "campaigns w1 = campaigns w4" "communication_log w1 = communication_log w4"
            by simp_all
          with k4 c4 c3 w2 show ?thesis by (simp add: keepsRows_def)
        qed
      qed
    qed
  qed
qed

lemma createdCount_le: "createdCount e c n \<le> n"
  by (induction n arbitrary: c) simp_all

lemma settledCount_le: "settledCount e c n \<le> n"
  by (induction n arbitrary: c) simp_all

lemma createLogs_created:
  "createLogs e cid tmpl cs logs w = (r, w') \<Longrightarrow>
   length (communication_log w') = length (communication_log w) + createdCount e (calls w) (length cs) \<and>
   (case r of
      Inr logs' \<Rightarrow> calls w' = calls w + length cs \<and> length logs' = length logs + length cs
    | Inl err \<Rightarrow> True)"
proof (induction cs arbitrary: logs w)
  case Nil
  then show ?case by auto
next
  case (Cons c cs)
  let ?content = "personalize e tmpl c"
  obtain x w1 where ex: "execute e (insertLog cid (cust_id c) ?content) w = (x, w1)"
    by (cases "execute e (insertLog cid (cust_id c) ?content) w")
  show ?case
  proof (cases x)
    case (Inl msg)
    with ex Cons.prems have "r = Inl (DbError msg)" "w' = w1" by (simp_all add: Let_def)
    moreover from ex Inl have "w1 = w\<lparr>calls := calls w + 1\<rparr>" "faults e (calls w) = Some msg"
      by (simp_all add: execute_Inl_iff)
    ultimately show ?thesis by simp
  next
    case (Inr insertId)
    from ex Inr have w1: "length (communication_log w1) = length (communication_log w) + 1"
      "calls w1 = calls w + 1" "faults e (calls w) = None"
      by (auto simp: execute_Inr_iff insertLog_def)
    let ?logs = "logs @ [\<lparr>log_id = insertId, log_customer_id = cust_id c,
                         log_message_content = ?content\<rparr>]"
    from ex Inr Cons.prems have rec: "createLogs e cid tmpl cs ?logs w1 = (r, w')"
      by (simp add: Let_def)
    from Cons.IH [OF rec] w1 show ?thesis
      by (cases r) simp_all
  qed
qed

lemma sendOne_calls:
  assumes "sendOne e entry w = (r, w')"
  shows "if faults e (calls w) = None then r = Inr () \<and> calls w' = calls w + 1
         else if faults e (calls w + 1) = None then r = Inr () \<and> calls w' = calls w + 2
         else \<exists>msg. r = Inl (DbError msg)"
  using assms
  by (auto simp: sendOne_def execute_def updateLog_def Let_def split: if_splits option.splits)

lemma settled_refl: "settled {} m m"
  by (simp add: settled_def touched_def sameRow_def)

lemma sendLogs_settled:
  "sendLogs e logs w = (r, w') \<Longrightarrow>
   list_all2 (settled (log_id ` set (take (settledCount e (calls w) (length logs)) logs)))
     (communication_log w) (communication_log w') \<and>
   (case r of
      Inr u \<Rightarrow> settledCount e (calls w) (length logs) = length logs
    | Inl err \<Rightarrow> settledCount e (calls w) (length logs) < length logs)"
proof (induction logs arbitrary: w)
  case Nil
  then show ?case by (auto simp: list_all2_same settled_refl)
next
  case (Cons entry logs)
  obtain r1 w1 where one: "sendOne e entry w = (r1, w1)" by (cases "sendOne e entry w")
  note o = sendOne_result [OF one]
  note c = sendOne_calls [OF one]
  show ?case
  proof (cases r1)
    case (Inl err)
    with one Cons.prems have "r = Inl err" "w' = w1" by simp_all
    moreover from c Inl have "settledCount e (calls w) (length (entry # logs)) = 0"
      by (auto split: if_splits)
    ultimately show ?thesis using o Inl
      by (simp add: list_all2_same settled_refl)
  next
    case (Inr u)
    with one Cons.prems have rec: "sendLogs e logs w1 = (r, w')" by simp
    note ih = Cons.IH [OF rec]
    from c Inr have j: "settledCount e (calls w) (length (entry # logs))
        = Suc (settledCount e (calls w1) (length logs))"
      by (auto split: if_splits)
    from o Inr have s1: "list_all2 (settled {log_id entry}) (communication_log w) (communication_log w1)"
      by simp
    have "list_all2 (settled (insert (log_id entry)
              (log_id ` set (take (settledCount e (calls w1) (length logs)) logs))))
            (communication_log w) (communication_log w')"
      using s1 ih
      by (auto intro: list_all2_trans [where ?P1.0 = "settled {log_id entry}"
            and ?P2.0 = "settled (log_id ` set (take (settledCount e (calls w1) (length logs)) logs))", rotated]
            settled_trans)
    with ih show ?thesis unfolding j by (cases r) simp_all
  qed
qed

lemma partialRecord_same:
  "communication_log w1 = communication_log w \<Longrightarrow> partialRecord cid [] 0 0 w w1"
  unfolding partialRecord_def
  by (rule exI [of _ "communication_log w"], rule exI [of _ "[]"])
     (simp add: list_all2_same sameRow_def)

lemma settled_sameRow: "settled S m m' \<Longrightarrow> sameRow m m'"
  by (simp add: settled_def touched_def)

lemma list_all2_eq_same: "list_all2 (\<lambda>m m'. m' = m) xs ys \<Longrightarrow> ys = xs"
  by (induction rule: list_all2_induct) simp_all

lemma list_all2_sameRow_maps:
  "list_all2 sameRow xs ys \<Longrightarrow>
   map msg_id ys = map msg_id xs \<and> map msg_customer_id ys = map msg_customer_id xs \<and>
   map msg_campaign_id ys = map msg_campaign_id xs"
  by (induction rule: list_all2_induct) (simp_all add: sameRow_def)

lemma list_all2_right_all:
  "list_all2 (\<lambda>m m'. P m') xs ys \<Longrightarrow> \<forall>m\<in>set ys. P m"
  by (induction rule: list_all2_induct) simp_all

lemma partial_rows:
  assumes ids: "map msg_id rows = [n ..< n + length rows]"
    and pend: "\<forall>m\<in>set rows. msg_status m = MPending"
    and j: "j \<le> length rows"
    and s: "list_all2 (settled (set [n ..< n + j])) (old0 @ rows) l4"
  shows "\<exists>us vs. l4 = us @ vs \<and> list_all2 sameRow old0 us \<and>
           ((\<forall>m\<in>set old0. msg_id m < n) \<longrightarrow> us = old0) \<and>
           list_all2 sameRow rows vs \<and>
           (\<forall>m\<in>set (take j vs). msg_status m = MSent \<or> msg_status m = MFailed) \<and>
           (\<forall>m\<in>set (drop j vs). msg_status m = MPending)"
proof -
  let ?S = "set [n ..< n + j]"
  from s obtain us vs where uv: "l4 = us @ vs"
    "list_all2 (settled ?S) old0 us" "list_all2 (settled ?S) rows vs"
    by (auto simp: list_all2_append1)
  have 1: "list_all2 sameRow old0 us"
    using uv(2) by (rule list_all2_mono) (rule settled_sameRow)
  have 2: "us = old0" if wf: "\<forall>m\<in>set old0. msg_id m < n"
  proof -
    have "list_all2 (\<lambda>m m'. m' = m) old0 us"
      using uv(2)
    proof (rule list.rel_mono_strong)
      fix m m' assume "m \<in> set old0" and st: "settled ?S m m'"
      with wf have "msg_id m < n" by simp
      then have "msg_id m \<notin> ?S" by simp
      with st show "m' = m" by (simp add: settled_def touched_def)
    qed
    then show ?thesis by (rule list_all2_eq_same)
  qed
  have 3: "list_all2 sameRow rows vs"
    using uv(3) by (rule list_all2_mono) (rule settled_sameRow)
  have tk: "map msg_id (take j rows) = [n ..< n + j]"
    using j by (simp add: take_map [symmetric] ids take_upt)
  have dr: "map msg_id (drop j rows) = [n + j ..< n + length rows]"
    by (simp add: drop_map [symmetric] ids drop_upt)
  have "list_all2 (settled ?S) (take j rows) (take j vs)"
    using uv(3) by (rule list_all2_takeI)
  then have "list_all2 (\<lambda>m m'. msg_status m' = MSent \<or> msg_status m' = MFailed) (take j rows) (take j vs)"
  proof (rule list.rel_mono_strong)
    fix m m' assume m: "m \<in> set (take j rows)" and st: "settled ?S m m'"
    from m have "msg_id m \<in> msg_id ` set (take j rows)" by (rule imageI)
    then have "msg_id m \<in> set (map msg_id (take j rows))" by (simp only: set_map)
    then have "msg_id m \<in> ?S" unfolding tk .
    with st show "msg_status m' = MSent \<or> msg_status m' = MFailed"
      by (simp add: settled_def)
  qed
  then have 4: "\<forall>m\<in>set (take j vs). msg_status m = MSent \<or> msg_status m = MFailed"
    by (rule list_all2_right_all)
  have "list_all2 (settled ?S) (drop j rows) (drop j vs)"
    using uv(3) by (rule list_all2_dropI)
  then have "list_all2 (\<lambda>m m'. msg_status m' = MPending) (drop j rows) (drop j vs)"
  proof (rule list.rel_mono_strong)
    fix m m' assume m: "m \<in> set (drop j rows)" and st: "settled ?S m m'"
    from m have "msg_id m \<in> msg_id ` set (drop j rows)" by (rule imageI)
    then have "msg_id m \<in> set (map msg_id (drop j rows))" by (simp only: set_map)
    then have "msg_id m \<notin> ?S" unfolding dr by simp
    with st have "m' = m" by (simp add: settled_def touched_def)
    moreover from m have "m \<in> set rows" by (rule in_set_dropD)
    ultimately show "msg_status m' = MPending" using pend by simp
  qed
  then have 5: "\<forall>m\<in>set (drop j vs). msg_status m = MPending"
    by (rule list_all2_right_all)
  from uv(1) 1 2 3 4 5 show ?thesis by blast
qed

lemma queryCustomers_Inr:
  "queryCustomers e clause ps w = (Inr cs, w') \<Longrightarrow>
   faults e (calls w) = None \<and> selectCustomers e clause ps = Inr cs \<and> w' = w\<lparr>calls := calls w + 1\<rparr>"
  by (auto simp: queryCustomers_def execute_def Let_def split: option.splits)

lemma queryCustomers_Inl:
  "queryCustomers e clause ps w = (Inl msg, w') \<Longrightarrow>
   (faults e (calls w) \<noteq> None \<or> selectCustomers e clause ps = Inl msg) \<and>
   w' = w\<lparr>calls := calls w + 1\<rparr>"
  by (auto simp: queryCustomers_def execute_def Let_def split: option.splits)

lemma tryDispatch_Inl_rows:
  assumes "tryDispatch e cid sid tmpl w = (Inl err, w1)"
  shows "partialRecord cid (audienceOf e sid w)
           (createdCount e (calls w + 2) (length (audienceOf e sid w)))
           (if createdCount e (calls w + 2) (length (audienceOf e sid w)) < length (audienceOf e sid w)
            then 0
            else settledCount e (calls w + 2 + length (audienceOf e sid w)) (length (audienceOf e sid w)))
           w w1"
proof -
  obtain r1 wa where e1: "execute e (selectSegmentRules sid) w = (r1, wa)"
    by (cases "execute e (selectSegmentRules sid) w")
  then have wa: "communication_log wa = communication_log w" "next_log_id wa = next_log_id w"
    "calls wa = calls w + 1"
    by (cases r1; auto simp: execute_Inr_iff execute_Inl_iff selectSegmentRules_def)+
  have early: ?thesis if "audienceOf e sid w = []" "communication_log w1 = communication_log w"
    using partialRecord_same [OF that(2)] by (simp add: that(1))
  show ?thesis
  proof (cases "\<exists>rules rest q. r1 = Inr (Some rules # rest) \<and> buildSegmentQuery rules = Inr q")
    case False
    with assms e1 have "w1 = wa"
      by (auto simp: tryDispatch_def split: sum.splits list.splits option.splits)
    moreover have "audienceOf e sid w = []"
    proof (cases r1)
      case (Inl msg)
      with e1 show ?thesis by (simp add: execute_Inl_iff audienceOf_def)
    next
      case (Inr segs)
      with e1 have "map seg_rules (filter (\<lambda>s. seg_id s = sid) (segments w)) = segs"
        by (auto simp: execute_Inr_iff selectSegmentRules_def)
      with False Inr show ?thesis
        by (auto simp: audienceOf_def split: list.splits option.splits sum.splits)
    qed
    ultimately show ?thesis using wa by (intro early) simp_all
  next
    case True
    then obtain rules rest q where r1: "r1 = Inr (Some rules # rest)"
      and q: "buildSegmentQuery rules = Inr q" by blast
    from e1 r1 have f0: "faults e (calls w) = None"
      and seg: "map seg_rules (filter (\<lambda>s. seg_id s = sid) (segments w)) = Some rules # rest"
      by (auto simp: execute_Inr_iff selectSegmentRules_def)
    obtain r2 w2 where e2: "queryCustomers e (query q) (params q) wa = (r2, w2)"
      by (cases "queryCustomers e (query q) (params q) wa")
    from queryCustomers_result [OF e2] wa
    have w2: "communication_log w2 = communication_log w" "next_log_id w2 = next_log_id w"
      "calls w2 = calls w + 2" by simp_all
    show ?thesis
    proof (cases r2)
      case (Inl msg)
      with assms e1 r1 q e2 have "w1 = w2" by (simp add: tryDispatch_def)
      moreover from queryCustomers_Inl [OF e2 [unfolded Inl]] wa seg q
      have "audienceOf e sid w = []"
        by (auto simp: audienceOf_def)
      ultimately show ?thesis using w2 by (intro early) simp_all
    next
      case (Inr audience)
      from queryCustomers_Inr [OF e2 [unfolded Inr]] wa f0 seg q
      have aud: "audienceOf e sid w = audience"
        by (simp add: audienceOf_def)
      let ?N = "length audience"
      let ?k = "createdCount e (calls w + 2) ?N"
      obtain r3 w3 where e3: "createLogs e cid tmpl audience [] w2 = (r3, w3)"
        by (cases "createLogs e cid tmpl audience [] w2")
      from createLogs_result [OF e3] obtain rows where rows:
        "communication_log w3 = communication_log w @ rows"
        "map msg_id rows = [next_log_id w ..< next_log_id w + length rows]"
        "map (\<lambda>m. (msg_customer_id m, msg_status m)) rows
           = map (\<lambda>c. (cust_id c, MPending)) (take (length rows) audience)"
        "\<forall>m\<in>set rows. msg_campaign_id m = cid"
        "(case r3 of
            Inr logs' \<Rightarrow> length rows = ?N \<and>
              map log_id logs' = map log_id ([] :: log_entry list) @ map msg_id rows
          | Inl err \<Rightarrow> length rows < ?N)"
        unfolding w2 by (elim exE conjE) (rule that)
      from createLogs_created [OF e3] rows(1) have k: "length rows = ?k"
        by (simp add: w2)
      have cust: "map msg_customer_id rows = map cust_id (take ?k audience)"
      proof -
        have "map msg_customer_id rows = map fst (map (\<lambda>m. (msg_customer_id m, msg_status m)) rows)"
          by (simp add: o_def)
        also have "\<dots> = map cust_id (take (length rows) audience)"
          unfolding rows(3) by (simp add: o_def)
        finally show ?thesis by (simp add: k)
      qed
      have pend: "\<forall>m\<in>set rows. msg_status m = MPending"
      proof -
        have "map msg_status rows = map snd (map (\<lambda>m. (msg_customer_id m, msg_status m)) rows)"
          by (simp add: o_def)
        also have "\<dots> = map (\<lambda>c. MPending) (take (length rows) audience)"
          unfolding rows(3) by (simp add: o_def)
        finally have "set (map msg_status rows) \<subseteq> {MPending}" by auto
        then show ?thesis by auto
      qed
      show ?thesis
      proof (cases r3)
        case (Inl err3)
        with assms e1 r1 q e2 Inr e3 have w13: "w1 = w3" by (simp add: tryDispatch_def)
        from rows(5) Inl k have less: "?k < ?N" by simp
        show ?thesis
          unfolding partialRecord_def aud
          apply (rule exI [of _ "communication_log w"], rule exI [of _ rows])
          using rows(1,2,4) cust pend k w13 less
          by (simp add: list_all2_same sameRow_def)
      next
        case inr3: (Inr logs)
        with rows(5) k have full: "?k = ?N" "length rows = ?N"
          and li: "map log_id logs = map msg_id rows" by simp_all
        from li have ll: "length logs = ?N" using full(2) by (metis length_map)
        from createLogs_created [OF e3] inr3 have c3: "calls w3 = calls w + 2 + ?N"
          by (simp add: w2)
        let ?j = "settledCount e (calls w + 2 + ?N) ?N"
        obtain r4 w4 where e4: "sendLogs e logs w3 = (r4, w4)"
          by (cases "sendLogs e logs w3")
        have jle: "?j \<le> length rows" using settledCount_le [of e _ ?N] full(2) by simp
        have S: "log_id ` set (take ?j logs) = set [next_log_id w ..< next_log_id w + ?j]"
        proof -
          have "log_id ` set (take ?j logs) = set (take ?j (map log_id logs))"
            by (simp add: take_map)
          also have "\<dots> = set (take ?j [next_log_id w ..< next_log_id w + length rows])"
            by (simp add: li rows(2))
          also have "\<dots> = set [next_log_id w ..< next_log_id w + ?j]"
            using jle by (simp add: take_upt)
          finally show ?thesis .
        qed
        from sendLogs_settled [OF e4]
        have "list_all2 (settled (log_id ` set (take (settledCount e (calls w3) (length logs)) logs)))
                (communication_log w3) (communication_log w4)"
          by (rule conjunct1)
        then have "list_all2 (settled (set [next_log_id w ..< next_log_id w + ?j]))
                (communication_log w @ rows) (communication_log w4)"
          unfolding c3 ll S rows(1) .
        from partial_rows [OF rows(2) pend jle this] obtain us vs where uv:
          "communication_log w4 = us @ vs" "list_all2 sameRow (communication_log w) us"
          "(\<forall>m\<in>set (communication_log w). msg_id m < next_log_id w) \<longrightarrow> us = communication_log w"
          "list_all2 sameRow rows vs"
          "\<forall>m\<in>set (take ?j vs). msg_status m = MSent \<or> msg_status m = MFailed"
          "\<forall>m\<in>set (drop ?j vs). msg_status m = MPending"
          by blast
        note mp = list_all2_sameRow_maps [OF uv(4)]
        have cidv: "\<forall>m\<in>set vs. msg_campaign_id m = cid"
        proof -
          have "set (map msg_campaign_id vs) = set (map msg_campaign_id rows)" using mp by simp
          with rows(4) show ?thesis by auto
        qed
        have l1: "communication_log w1 = communication_log w4"
        proof (cases r4)
          case (Inl err4)
          with assms e1 r1 q e2 Inr e3 inr3 e4 show ?thesis by (simp add: tryDispatch_def)
        next
          case inr4: (Inr u)
          obtain r5 w5 where e5: "execute e (\<lambda>t. updateCampaign (setCampaignSent t) cid) w4 = (r5, w5)"
            by (cases "execute e (\<lambda>t. updateCampaign (setCampaignSent t) cid) w4")
          with assms e1 r1 q e2 Inr e3 inr3 e4 inr4 obtain msg where r5: "r5 = Inl msg" and "w1 = w5"
            by (cases r5) (auto simp: tryDispatch_def)
          moreover from e5 r5 have "w5 = w4\<lparr>calls := calls w4 + 1\<rparr>"
            by (simp add: execute_Inl_iff)
          ultimately show ?thesis by simp
        qed
        show ?thesis
          unfolding partialRecord_def aud
          apply (rule exI [of _ us], rule exI [of _ vs])
          using uv mp cidv l1 full rows(2) cust
          by simp
      qed
    qed
  qed
qed

lemmas dispatch_defs = sendCampaignMessages_def tryDispatch_def execute_def
  selectSegmentRules_def queryCustomers_def buildSegmentQuery_def processRule.simps
  isComposite_def processLeaf_def switchField_def insertLog_def updateLog_def sendOne_def
  setSent_def setFailed_def updateCampaign_def setCampaignSent_def setCampaignFailed_def
  exampleEnv_def dispatchWorld_def alice_def bob_def campaign_def message_def Let_def
  noFault_def downFrom_def faultAt_def

lemma execute_no_fault:
  "faults e (calls w) = None \<Longrightarrow>
   execute e stmt w = (Inr (fst (stmt (clock e (calls w)) (w\<lparr>calls := calls w + 1\<rparr>))),
                      snd (stmt (clock e (calls w)) (w\<lparr>calls := calls w + 1\<rparr>)))"
  by (simp add: execute_def Let_def split: prod.splits)

lemma createLogs_no_fault:
  "\<forall>k. faults e k = None \<Longrightarrow> \<exists>logs' w'. createLogs e cid tmpl cs logs w = (Inr logs', w')"
  by (induction cs arbitrary: logs w) (simp_all add: execute_no_fault Let_def)

lemma sendOne_no_fault:
  "\<forall>k. faults e k = None \<Longrightarrow> \<exists>w'. sendOne e entry w = (Inr (), w')"
  by (simp add: sendOne_def execute_no_fault Let_def)

lemma sendLogs_no_fault:
  "\<forall>k. faults e k = None \<Longrightarrow> \<exists>w'. sendLogs e logs w = (Inr (), w')"
proof (induction logs arbitrary: w)
  case Nil
  show ?case by simp
next
  case (Cons entry logs)
  from sendOne_no_fault [OF Cons.prems] obtain w1 where "sendOne e entry w = (Inr (), w1)"
    by blast
  with Cons.IH [OF Cons.prems, of w1] show ?case by simp
qed

lemma sendCampaignMessages_no_fault:
  assumes nf: "\<forall>k. faults e k = None"
    and seg: "map seg_rules (filter (\<lambda>s. seg_id s = sid) (segments w)) = Some rules # rest"
    and q: "buildSegmentQuery rules = Inr q"
    and aud: "selectCustomers e (query q) (params q) = Inr audience"
  shows "\<exists>r w'. sendCampaignMessages e cid sid tmpl w = (Inr r, w')"
proof -
  obtain w1 where e1: "execute e (selectSegmentRules sid) w = (Inr (Some rules # rest), w1)"
    using nf seg by (simp add: execute_no_fault selectSegmentRules_def)
  obtain w2 where e2: "queryCustomers e (query q) (params q) w1 = (Inr audience, w2)"
    using nf aud by (simp add: queryCustomers_def execute_no_fault)
  from createLogs_no_fault [OF nf] obtain logs w3 where
    e3: "createLogs e cid tmpl audience [] w2 = (Inr logs, w3)"
    by blast
  from sendLogs_no_fault [OF nf] obtain w4 where e4: "sendLogs e logs w3 = (Inr (), w4)"
    by blast
  obtain w5 where e5: "execute e (\<lambda>t. updateCampaign (setCampaignSent t) cid) w4 = (Inr (), w5)"
    using nf by (simp add: execute_no_fault updateCampaign_def)
  have "tryDispatch e cid sid tmpl w = (Inr \<lparr>totalSent = length logs, success = True\<rparr>, w5)"
    by (simp add: tryDispatch_def e1 q e2 e3 e4 e5)
  then show ?thesis by (simp add: sendCampaignMessages_def)
qed

lemma dispatch_settles:
  assumes wf: "\<forall>m\<in>set (communication_log w). msg_id m < next_log_id w"
    and fresh: "\<forall>m\<in>set (communication_log w). msg_campaign_id m \<noteq> cid"
    and seg: "map seg_rules (filter (\<lambda>s. seg_id s = sid) (segments w)) = Some rules # rest"
    and q: "buildSegmentQuery rules = Inr q"
    and aud: "selectCustomers e (query q) (params q) = Inr audience"
    and d: "sendCampaignMessages e cid sid tmpl w = (Inr r, w')"
  shows "\<exists>logs wb wc.
      createLogs e cid tmpl audience [] (w\<lparr>calls := calls w + 2\<rparr>) = (Inr logs, wb) \<and>
      sendLogs e logs wb = (Inr (), wc) \<and>
      communication_log w' = communication_log wc \<and>
      map (\<lambda>m. (msg_customer_id m, msg_status m))
          (filter (\<lambda>m. msg_campaign_id m = cid) (communication_log wb))
        = map (\<lambda>c. (cust_id c, MPending)) audience \<and>
      map msg_customer_id (filter (\<lambda>m. msg_campaign_id m = cid) (communication_log w'))
        = map cust_id audience \<and>
      (\<forall>m\<in>set (filter (\<lambda>m. msg_campaign_id m = cid) (communication_log w')).
         msg_status m = MSent \<or> msg_status m = MFailed) \<and>
      totalSent r = length audience \<and>
      total_messages cid w' = length audience \<and>
      sent_messages cid w' + failed_messages cid w' = length audience \<and>
      pending_messages cid w' = 0"
proof -
  from d have "tryDispatch e cid sid tmpl w = (Inr r, w')"
    by (simp add: sendCampaignMessages_Inr)
  then obtain rules' rest' q' audience' w2 logs w3 w4 t where t:
    "map seg_rules (filter (\<lambda>s. seg_id s = sid) (segments w)) = Some rules' # rest'"
    "buildSegmentQuery rules' = Inr q'"
    "selectCustomers e (query q') (params q') = Inr audience'"
    "w2 = w\<lparr>calls := calls w + 2\<rparr>"
    "createLogs e cid tmpl audience' [] w2 = (Inr logs, w3)"
    "sendLogs e logs w3 = (Inr (), w4)"
    "communication_log w' = communication_log w4"
    "campaigns w' = map (\<lambda>c. if camp_id c = cid then setCampaignSent t c else c) (campaigns w4)"
    "r = \<lparr>totalSent = length logs, success = True\<rparr>"
    by (rule tryDispatch_Inr)
  from t(1,2,3) seg q aud have same: "audience' = audience" by simp
  have wf2: "\<forall>m\<in>set (communication_log w2). msg_id m < next_log_id w2"
    and fresh2: "\<forall>m\<in>set (communication_log w2). msg_campaign_id m \<noteq> cid"
    using wf fresh by (simp_all add: t(4))
  note c = t(5) [unfolded same]
  note l = dispatch_loops [OF wf2 fresh2 c t(6)]
  have counts: "total_messages cid w' = total_messages cid w4"
    "sent_messages cid w' = sent_messages cid w4"
    "failed_messages cid w' = failed_messages cid w4"
    "pending_messages cid w' = pending_messages cid w4"
    by (simp_all add: total_messages_def sent_messages_def failed_messages_def
        pending_messages_def t(7))
  show ?thesis
    apply (rule exI [of _ logs], rule exI [of _ w3], rule exI [of _ w4], intro conjI)
    subgoal using c by (simp add: t(4))
    subgoal by (rule t(6))
    subgoal by (rule t(7))
    subgoal by (rule l(2))
    subgoal using l(3) by (simp add: t(7))
    subgoal using l(4) by (simp add: t(7))
    subgoal using l(1) by (simp add: t(9))
    subgoal using l(5) by (simp add: counts)
    subgoal using l(6) by (simp add: counts)
    subgoal using l(7) by (simp add: counts)
    done
qed

lemma receipt_with_mixed_types_leaves_campaigns:
  assumes "deliveryReceipt e rc w = (ReceiptProcessed, w')"
    and "bigintAsString e \<noteq> decimalAsString e"
  shows "campaigns w' = campaigns w"
proof -
  from assms(1) obtain mid s entry rest w2 where d:
    "rc_message_id rc = Some mid" "rc_status rc = Some s"
    "filter (\<lambda>m. msg_id m = mid) (communication_log w) = entry # rest"
    "applyReceipt e mid s rc (w\<lparr>calls := calls w + 1\<rparr>) = (Inr (), w2)"
    "finishCampaign e (msg_campaign_id entry) w2 = (ReceiptProcessed, w')"
    by (rule deliveryReceipt_processed)
  have "campaigns w2 = campaigns w"
    using applyReceipt_Inr(4) [OF d(4)] by simp
  with finishCampaign_processed(2) [OF d(5)] assms(2) show ?thesis
    by (auto simp: Let_def)
qed

section \<open>The claims\<close>

subsection \<open>Claim C1\<close>




subsection \<open>Claim C2\<close>

text \<open>
  C2, as stated: a message in a terminal status is not moved to another terminal status by a
  later receipt. A message in status \<open>failed\<close> that receives a \<open>delivered\<close> receipt becomes
  \<open>delivered\<close>.
\<close>

theorem terminal_status_counterexample:
  "map msg_status (communication_log (worldWith [campaign 1 CSending] [message 1 1 5 MFailed]))
     = [MFailed] \<and>
   fst (deliveryReceipt (exampleEnv noFault) (deliveredReceipt 1)
          (worldWith [campaign 1 CSending] [message 1 1 5 MFailed])) = ReceiptProcessed \<and>
   map msg_status (communication_log (snd (deliveryReceipt (exampleEnv noFault) (deliveredReceipt 1)
          (worldWith [campaign 1 CSending] [message 1 1 5 MFailed])))) = [MDelivered]"
  by (simp add: handler_defs)

text \<open>
  C2, amended: a processed receipt with outcome \<open>delivered\<close> or \<open>failed\<close> sets the status of
  the addressed message to that outcome whatever the status was before (any other outcome
  leaves it), and leaves the status of every other message. So a receipt whose outcome is
  the message's status leaves the status, and processing the same receipt a second time
  leaves every status as the first processing set it.
\<close>

theorem receipt_overwrites_status:
  assumes "deliveryReceipt e rc w = (ReceiptProcessed, w')"
    and "rc_message_id rc = Some mid" and "rc_status rc = Some s"
  shows "map msg_status (communication_log w')
           = map (\<lambda>m. if msg_id m = mid then receiptStatus s (msg_status m) else msg_status m)
               (communication_log w) \<and>
         (\<forall>w''. deliveryReceipt e rc w' = (ReceiptProcessed, w'') \<longrightarrow>
            map msg_status (communication_log w'') = map msg_status (communication_log w'))"
proof -
  let ?pair = "\<lambda>m. (msg_id m, msg_status m)"
  let ?step = "\<lambda>p. (fst p, if fst p = mid then receiptStatus s (snd p) else snd p)"
  have 1: "map ?pair (communication_log w') = map ?step (map ?pair (communication_log w))"
    using deliveryReceipt_rows [OF assms] by (simp add: o_def)
  have a: "map msg_status (communication_log w')
           = map (\<lambda>m. if msg_id m = mid then receiptStatus s (msg_status m) else msg_status m)
               (communication_log w)"
  proof -
    have "map msg_status (communication_log w') = map snd (map ?pair (communication_log w'))"
      by (simp add: o_def)
    also have "\<dots> = map snd (map ?step (map ?pair (communication_log w)))"
      by (simp only: 1)
    finally show ?thesis by (simp add: o_def)
  qed
  have b: "map msg_status (communication_log w'') = map msg_status (communication_log w')"
    if again: "deliveryReceipt e rc w' = (ReceiptProcessed, w'')" for w''
  proof -
    have 2: "map ?pair (communication_log w'') = map ?step (map ?pair (communication_log w'))"
      using deliveryReceipt_rows [OF again assms(2,3)] by (simp add: o_def)
    have "map msg_status (communication_log w'') = map snd (map ?pair (communication_log w''))"
      by (simp add: o_def)
    also have "\<dots> = map snd (map ?step (map ?step (map ?pair (communication_log w))))"
      by (simp only: 1 2)
    also have "\<dots> = map snd (map ?step (map ?pair (communication_log w)))"
      by (simp add: o_def receiptStatus_idem)
    also have "\<dots> = map snd (map ?pair (communication_log w'))"
      by (simp only: 1)
    finally show ?thesis by (simp add: o_def)
  qed
  from a b show ?thesis by blast
qed

theorem receipt_overwrites_status_witness:
  "fst (deliveryReceipt (exampleEnv noFault) (deliveredReceipt 1)
          (worldWith [campaign 1 CSending] [message 1 1 5 MFailed, message 2 1 6 MSent]))
     = ReceiptProcessed \<and>
   map msg_status (communication_log (snd (deliveryReceipt (exampleEnv noFault) (deliveredReceipt 1)
          (worldWith [campaign 1 CSending] [message 1 1 5 MFailed, message 2 1 6 MSent]))))
     = [MDelivered, MSent] \<and>
   fst (deliveryReceipt (exampleEnv noFault) (deliveredReceipt 1)
          (snd (deliveryReceipt (exampleEnv noFault) (deliveredReceipt 1)
             (worldWith [campaign 1 CSending] [message 1 1 5 MFailed, message 2 1 6 MSent]))))
     = ReceiptProcessed \<and>
   map msg_status (communication_log
       (snd (deliveryReceipt (exampleEnv noFault) (deliveredReceipt 1)
          (snd (deliveryReceipt (exampleEnv noFault) (deliveredReceipt 1)
             (worldWith [campaign 1 CSending] [message 1 1 5 MFailed, message 2 1 6 MSent]))))))
     = [MDelivered, MSent]"
proof -
  let ?w = "worldWith [campaign 1 CSending] [message 1 1 5 MFailed, message 2 1 6 MSent]"
  let ?r = "deliveryReceipt (exampleEnv noFault) (deliveredReceipt 1) ?w"
  let ?r2 = "deliveryReceipt (exampleEnv noFault) (deliveredReceipt 1) (snd ?r)"
  have f: "fst ?r = ReceiptProcessed" by (simp add: handler_defs)
  then have h: "?r = (ReceiptProcessed, snd ?r)" by (metis prod.collapse)
  have f2: "fst ?r2 = ReceiptProcessed" by (simp add: handler_defs)
  then have h2: "?r2 = (ReceiptProcessed, snd ?r2)" by (metis prod.collapse)
  have i: "rc_message_id (deliveredReceipt 1) = Some 1" by (simp add: deliveredReceipt_def)
  have s: "rc_status (deliveredReceipt 1) = Some ''delivered''" by (simp add: deliveredReceipt_def)
  have l: "communication_log ?w = [message 1 1 5 MFailed, message 2 1 6 MSent]"
    by (simp add: worldWith_def)
  note both = receipt_overwrites_status [OF h i s]
  from both
  have "map msg_status (communication_log (snd ?r))
          = map (\<lambda>m. if msg_id m = 1 then receiptStatus ''delivered'' (msg_status m)
                        else msg_status m) [message 1 1 5 MFailed, message 2 1 6 MSent]"
    unfolding l by (rule conjunct1)
  then have once: "map msg_status (communication_log (snd ?r)) = [MDelivered, MSent]"
    by (simp add: receiptStatus_def message_def)
  from both h2 have "map msg_status (communication_log (snd ?r2))
                      = map msg_status (communication_log (snd ?r))"
    by blast
  with once have twice: "map msg_status (communication_log (snd ?r2)) = [MDelivered, MSent]"
    by simp
  from f once f2 twice show ?thesis by blast
qed

subsection \<open>Claim C3\<close>

text \<open>
  C3, as stated: the parameter list is as long as the number of retained leaves. A single
  \<open>between\<close> leaf refutes it: one retained leaf, two parameters.
\<close>

theorem param_count_counterexample:
  "buildSegmentQuery
     (JObj [(''field'', JStr ''total_spent''), (''operator'', JStr ''between''),
            (''value'', JObj [(''min'', JNum 1000), (''max'', JNum 2000)])])
     = Inr \<lparr>query = ''total_spent BETWEEN ? AND ?'',
            params = [ParseFloat (JNum 1000), ParseFloat (JNum 2000)]\<rparr> \<and>
   length (retainedLeaves
     (JObj [(''field'', JStr ''total_spent''), (''operator'', JStr ''between''),
            (''value'', JObj [(''min'', JNum 1000), (''max'', JNum 2000)])])) = 1 \<and>
   length (compiledParams
     (JObj [(''field'', JStr ''total_spent''), (''operator'', JStr ''between''),
            (''value'', JObj [(''min'', JNum 1000), (''max'', JNum 2000)])]))
     \<noteq> length (retainedLeaves
     (JObj [(''field'', JStr ''total_spent''), (''operator'', JStr ''between''),
            (''value'', JObj [(''min'', JNum 1000), (''max'', JNum 2000)])]))"
  by (simp add: compiledParams_def buildSegmentQuery_def processRule.simps isComposite_def
      processLeaf_def switchField_def retainedLeaves_def leaves.simps leafText_def)

text \<open>
  C3, amended: for every rule tree that compiles, the length of the parameter list is the
  sum, over the retained leaves, of the number of values the leaf binds: two for
  \<open>between\<close>, none for \<open>is_null\<close>, one for every other operator.
\<close>

theorem param_count_by_arity:
  "buildSegmentQuery rule = Inr res \<Longrightarrow>
   length (params res) = sum_list (map leafArity (retainedLeaves rule))"
proof -
  assume "buildSegmentQuery rule = Inr res"
  then have ok: "\<not> isl (processRule rule [])" and res: "params res = rulePushed rule"
    by (simp_all add: buildSegmentQuery_Inr_eq)
  from rule_leaves [OF ok]
  have p: "rulePushed rule = concat (map leafPushed (leaves rule))"
    and l: "\<forall>l\<in>set (leaves rule). \<not> isl (processLeaf l [])" by simp_all
  have each: "length (leafPushed l) = (if leafText l \<noteq> [] then leafArity l else 0)"
    if "l \<in> set (leaves rule)" for l
  proof -
    from l that obtain q vs where qv: "processLeaf l [] = Inr (q, vs)"
      by (cases "processLeaf l []") auto
    then show ?thesis
      using processLeaf_arity [OF qv] processLeaf_dropped [of l vs]
      by (auto simp: leafPushed_def leafText_def)
  qed
  have "length (params res) = sum_list (map (\<lambda>l. length (leafPushed l)) (leaves rule))"
    by (simp add: res p length_concat o_def)
  also have "\<dots> = sum_list (map (\<lambda>l. if leafText l \<noteq> [] then leafArity l else 0) (leaves rule))"
    using each by (simp cong: map_cong)
  also have "\<dots> = sum_list (map leafArity (retainedLeaves rule))"
    unfolding retainedLeaves_def by (rule sum_list_if_filter)
  finally show ?thesis .
qed

theorem param_count_by_arity_witness:
  "buildSegmentQuery
     (JObj [(''field'', JStr ''total_spent''), (''operator'', JStr ''between''),
            (''value'', JObj [(''min'', JNum 1000), (''max'', JNum 2000)])])
     = Inr \<lparr>query = ''total_spent BETWEEN ? AND ?'',
            params = [ParseFloat (JNum 1000), ParseFloat (JNum 2000)]\<rparr> \<and>
   sum_list (map leafArity (retainedLeaves
     (JObj [(''field'', JStr ''total_spent''), (''operator'', JStr ''between''),
            (''value'', JObj [(''min'', JNum 1000), (''max'', JNum 2000)])]))) = 2"
proof -
  let ?r = "JObj [(''field'', JStr ''total_spent''), (''operator'', JStr ''between''),
                  (''value'', JObj [(''min'', JNum 1000), (''max'', JNum 2000)])]"
  have b: "buildSegmentQuery ?r
     = Inr \<lparr>query = ''total_spent BETWEEN ? AND ?'',
            params = [ParseFloat (JNum 1000), ParseFloat (JNum 2000)]\<rparr>"
    by (simp add: buildSegmentQuery_def processRule.simps isComposite_def processLeaf_def
        switchField_def)
  from param_count_by_arity [OF b] b show ?thesis by simp
qed

subsection \<open>Claim C4\<close>



subsection \<open>Claim C5\<close>

text \<open>
  C5. When the rule tree of a request compiles to the empty expression, segment creation
  (after a passed schema validation) answers 400 \<open>Invalid segment rules\<close>, and preview answers
  400 (\<open>Invalid segment rules\<close>, or \<open>Rules are required\<close> when the rules value is falsy). In both
  routes the store is returned as it was: no statement has been issued.
\<close>

theorem empty_expression_rejected:
  "buildSegmentQuery rules = Inr q \<Longrightarrow> query q = [] \<Longrightarrow>
   (validateSegment e body = Inr val \<longrightarrow> jsprop val ''rules'' = rules \<longrightarrow>
      createSegment e userId body w = (InvalidSegmentRules, w)) \<and>
   (\<not> nullish body' \<longrightarrow> jsprop body' ''rules'' = rules \<longrightarrow>
      previewSegment e body' w = (if truthy rules then InvalidSegmentRules else RulesRequired, w) \<and>
      statusCode (fst (previewSegment e body' w)) = 400) \<and>
   statusCode InvalidSegmentRules = 400"
  by (simp add: createSegment_def previewSegment_def)

theorem empty_expression_rejected_witness:
  "createSegment (exampleEnv noFault) 7
     (JObj [(''name'', JStr ''Nobody''),
            (''rules'', JObj [(''operator'', JStr ''AND''), (''conditions'', JArr [])])])
     (worldWith [] [])
     = (InvalidSegmentRules, worldWith [] []) \<and>
   previewSegment (exampleEnv noFault)
     (JObj [(''rules'', JObj [(''operator'', JStr ''AND''), (''conditions'', JArr [])])])
     (worldWith [] [])
     = (InvalidSegmentRules, worldWith [] [])"
proof -
  let ?rules = "JObj [(''operator'', JStr ''AND''), (''conditions'', JArr [])]"
  have b: "buildSegmentQuery ?rules = Inr \<lparr>query = [], params = []\<rparr>"
    by (simp add: buildSegmentQuery_def processRule.simps isComposite_def conditionsOf_def)
  have q: "query \<lparr>query = [], params = []\<rparr> = []" by simp
  show ?thesis
    using empty_expression_rejected [OF b q, where e = "exampleEnv noFault"
        and w = "worldWith [] []" and userId = 7
        and body = "JObj [(''name'', JStr ''Nobody''), (''rules'', ?rules)]"
        and val = "JObj [(''name'', JStr ''Nobody''), (''rules'', ?rules)]"
        and body' = "JObj [(''rules'', ?rules)]"]
    by (simp add: exampleEnv_def)
qed

subsection \<open>Claim C6\<close>

text \<open>
  C6. For a campaign without earlier messages and an audience of \<open>N\<close> customers: on a store
  that rejects no statement the dispatch returns; and whenever it returns, the first loop
  has created one message per customer, all \<open>pending\<close>, in the store from which the second
  loop starts, and when the second loop is over each of the \<open>N\<close> messages is \<open>sent\<close> or
  \<open>failed\<close>, none is \<open>pending\<close>, and
  \<open>sent_messages + failed_messages = total_messages = N = totalSent\<close>.
\<close>

theorem dispatch_settles_every_message:
  assumes wf: "\<forall>m\<in>set (communication_log w). msg_id m < next_log_id w"
    and fresh: "\<forall>m\<in>set (communication_log w). msg_campaign_id m \<noteq> cid"
    and seg: "map seg_rules (filter (\<lambda>s. seg_id s = sid) (segments w)) = Some rules # rest"
    and q: "buildSegmentQuery rules = Inr q"
    and aud: "selectCustomers e (query q) (params q) = Inr audience"
  shows "((\<forall>k. faults e k = None) \<longrightarrow>
            (\<exists>r w'. sendCampaignMessages e cid sid tmpl w = (Inr r, w'))) \<and>
         (\<forall>r w'. sendCampaignMessages e cid sid tmpl w = (Inr r, w') \<longrightarrow>
            (\<exists>logs wb wc.
      createLogs e cid tmpl audience [] (w\<lparr>calls := calls w + 2\<rparr>) = (Inr logs, wb) \<and>
      sendLogs e logs wb = (Inr (), wc) \<and>
      communication_log w' = communication_log wc \<and>
      map (\<lambda>m. (msg_customer_id m, msg_status m))
          (filter (\<lambda>m. msg_campaign_id m = cid) (communication_log wb))
        = map (\<lambda>c. (cust_id c, MPending)) audience \<and>
      map msg_customer_id (filter (\<lambda>m. msg_campaign_id m = cid) (communication_log w'))
        = map cust_id audience \<and>
      (\<forall>m\<in>set (filter (\<lambda>m. msg_campaign_id m = cid) (communication_log w')).
         msg_status m = MSent \<or> msg_status m = MFailed) \<and>
      totalSent r = length audience \<and>
      total_messages cid w' = length audience \<and>
      sent_messages cid w' + failed_messages cid w' = length audience \<and>
      pending_messages cid w' = 0))"
proof (intro conjI impI allI)
  assume "\<forall>k. faults e k = None"
  then show "\<exists>r w'. sendCampaignMessages e cid sid tmpl w = (Inr r, w')"
    using seg q aud by (rule sendCampaignMessages_no_fault)
next
  fix r w'
  assume "sendCampaignMessages e cid sid tmpl w = (Inr r, w')"
  with wf fresh seg q aud show "\<exists>logs wb wc.
      createLogs e cid tmpl audience [] (w\<lparr>calls := calls w + 2\<rparr>) = (Inr logs, wb) \<and>
      sendLogs e logs wb = (Inr (), wc) \<and>
      communication_log w' = communication_log wc \<and>
      map (\<lambda>m. (msg_customer_id m, msg_status m))
          (filter (\<lambda>m. msg_campaign_id m = cid) (communication_log wb))
        = map (\<lambda>c. (cust_id c, MPending)) audience \<and>
      map msg_customer_id (filter (\<lambda>m. msg_campaign_id m = cid) (communication_log w'))
        = map cust_id audience \<and>
      (\<forall>m\<in>set (filter (\<lambda>m. msg_campaign_id m = cid) (communication_log w')).
         msg_status m = MSent \<or> msg_status m = MFailed) \<and>
      totalSent r = length audience \<and>
      total_messages cid w' = length audience \<and>
      sent_messages cid w' + failed_messages cid w' = length audience \<and>
      pending_messages cid w' = 0"
    by (rule dispatch_settles)
qed

theorem dispatch_settles_every_message_witness:
  "fst (sendCampaignMessages (exampleEnv noFault) 1 1 ''Hello'' dispatchWorld)
     = Inr \<lparr>totalSent = 2, success = True\<rparr> \<and>
   total_messages 1 (snd (sendCampaignMessages (exampleEnv noFault) 1 1 ''Hello'' dispatchWorld))
     = 2 \<and>
   sent_messages 1 (snd (sendCampaignMessages (exampleEnv noFault) 1 1 ''Hello'' dispatchWorld))
     + failed_messages 1
         (snd (sendCampaignMessages (exampleEnv noFault) 1 1 ''Hello'' dispatchWorld)) = 2 \<and>
   pending_messages 1
     (snd (sendCampaignMessages (exampleEnv noFault) 1 1 ''Hello'' dispatchWorld)) = 0"
proof -
  let ?e = "exampleEnv noFault"
  let ?r = "sendCampaignMessages ?e 1 1 ''Hello'' dispatchWorld"
  let ?rules = "JObj [(''field'', JStr ''status''), (''operator'', JStr ''equals''),
                      (''value'', JStr ''active'')]"
  let ?q = "\<lparr>query = ''status = ?'', params = [Raw (JStr ''active'')]\<rparr>"
  have f: "fst ?r = Inr \<lparr>totalSent = 2, success = True\<rparr>"
    by (simp add: dispatch_defs)
  then have h: "?r = (Inr \<lparr>totalSent = 2, success = True\<rparr>, snd ?r)"
    by (metis prod.collapse)
  have wf: "\<forall>m\<in>set (communication_log dispatchWorld). msg_id m < next_log_id dispatchWorld"
    by (simp add: dispatchWorld_def message_def)
  have fresh: "\<forall>m\<in>set (communication_log dispatchWorld). msg_campaign_id m \<noteq> 1"
    by (simp add: dispatchWorld_def message_def)
  have seg: "map seg_rules (filter (\<lambda>s. seg_id s = 1) (segments dispatchWorld)) = Some ?rules # []"
    by (simp add: dispatchWorld_def)
  have q: "buildSegmentQuery ?rules = Inr ?q"
    by (simp add: buildSegmentQuery_def processRule.simps isComposite_def processLeaf_def
        switchField_def)
  have aud: "selectCustomers ?e (query ?q) (params ?q) = Inr [alice, bob]"
    by (simp add: exampleEnv_def)
  have nf: "\<forall>k. faults ?e k = None" by (simp add: exampleEnv_def noFault_def)
  note both = dispatch_settles_every_message [OF wf fresh seg q aud, where tmpl = "''Hello''"]
  from both nf have "\<exists>r w'. ?r = (Inr r, w')" by blast
  from both h
  have "total_messages 1 (snd ?r) = length [alice, bob] \<and>
        sent_messages 1 (snd ?r) + failed_messages 1 (snd ?r) = length [alice, bob] \<and>
        pending_messages 1 (snd ?r) = 0"
    by blast
  with f show ?thesis by simp
qed

subsection \<open>Claim C7\<close>

text \<open>
  C7, as stated: when the dispatch raises, the campaign is marked \<open>failed\<close>. With a store
  that stays unavailable from the second INSERT on, the UPDATE of the \<open>catch\<close> block is
  rejected too: the campaign keeps its status \<open>sending\<close>, and the one message created remains.
\<close>

theorem dispatch_failure_counterexample:
  "fst (sendCampaignMessages (exampleEnv (downFrom 3))
          1 1 ''Hello'' dispatchWorld)
     = Inl (DbError ''connection lost'') \<and>
   map camp_status
     (campaigns (snd (sendCampaignMessages
        (exampleEnv (downFrom 3))
        1 1 ''Hello'' dispatchWorld)))
     = [CSending, CSent] \<and>
   map msg_campaign_id
     (communication_log (snd (sendCampaignMessages (exampleEnv (downFrom 3))
        1 1 ''Hello'' dispatchWorld)))
     = [9, 1] \<and>
   map msg_status
     (communication_log (snd (sendCampaignMessages (exampleEnv (downFrom 3))
        1 1 ''Hello'' dispatchWorld)))
     = [MDelivered, MPending]"
  by (simp add: dispatch_defs)

text \<open>
  C7, amended: when sendCampaignMessages raises, the campaign is marked \<open>failed\<close>, and the
  original error rethrown, when the UPDATE issued by the \<open>catch\<close> block succeeds; when that
  UPDATE is rejected as well, the campaigns table is unchanged and its error is the one
  raised. The \<open>catch\<close> block does not touch the message table, which is left as follows. The
  rows that were there before are still there (the same messages; untouched when their ids
  are below the AUTO_INCREMENT counter). After them come the rows created for this campaign:
  exactly one for each customer whose INSERT the store accepted before it rejected one, in
  the order of the audience, and none for the remaining customers; none at all when the
  segment lookup, the compilation or the customer query raised. When an INSERT was rejected
  all of them are still \<open>pending\<close>; when the send loop was left, the messages it got through
  are \<open>sent\<close> or \<open>failed\<close> and the remaining ones are still \<open>pending\<close>.
\<close>

theorem dispatch_failure_marks_failed:
  assumes "sendCampaignMessages e cid sid tmpl w = (Inl err, w')"
  shows "\<exists>err0 w1 old rows.
      tryDispatch e cid sid tmpl w = (Inl err0, w1) \<and>
      (case faults e (calls w1) of
         None \<Rightarrow> err = err0 \<and>
           campaigns w' = map (\<lambda>c. if camp_id c = cid then c\<lparr>camp_status := CFailed\<rparr> else c)
                            (campaigns w)
       | Some msg \<Rightarrow> err = DbError msg \<and> campaigns w' = campaigns w) \<and>
      communication_log w' = communication_log w1 \<and>
      communication_log w' = old @ rows \<and>
      list_all2 sameRow (communication_log w) old \<and>
      ((\<forall>m\<in>set (communication_log w). msg_id m < next_log_id w) \<longrightarrow> old = communication_log w) \<and>
      (let audience = audienceOf e sid w;
           created = createdCount e (calls w + 2) (length audience);
           attempted = (if created < length audience then 0
                        else settledCount e (calls w + 2 + length audience) (length audience))
       in map msg_id rows = [next_log_id w ..< next_log_id w + created] \<and>
          map msg_customer_id rows = map cust_id (take created audience) \<and>
          (\<forall>m\<in>set rows. msg_campaign_id m = cid) \<and>
          (\<forall>m\<in>set (take attempted rows). msg_status m = MSent \<or> msg_status m = MFailed) \<and>
          (\<forall>m\<in>set (drop attempted rows). msg_status m = MPending))"
proof -
  obtain r1 w1 where t: "tryDispatch e cid sid tmpl w = (r1, w1)"
    by (cases "tryDispatch e cid sid tmpl w")
  with assms obtain err0 where r1: "r1 = Inl err0"
    by (cases r1) (auto simp: sendCampaignMessages_def)
  note t' = t [unfolded r1]
  note k = tryDispatch_Inl [OF t']
  obtain r2 w2 where e2: "execute e (\<lambda>t. updateCampaign setCampaignFailed cid) w1 = (r2, w2)"
    by (cases "execute e (\<lambda>t. updateCampaign setCampaignFailed cid) w1")
  from assms t r1 e2 have res: "w' = w2"
    "err = (case r2 of Inl msg \<Rightarrow> DbError msg | Inr u \<Rightarrow> err0)"
    by (auto simp: sendCampaignMessages_def split: sum.splits)
  have lg: "communication_log w' = communication_log w1"
    unfolding res(1) using e2
    by (cases r2) (auto simp: execute_Inr_iff execute_Inl_iff updateCampaign_def)
  have cs: "(case faults e (calls w1) of
              None \<Rightarrow> err = err0 \<and>
                campaigns w' = map (\<lambda>c. if camp_id c = cid then c\<lparr>camp_status := CFailed\<rparr> else c)
                                 (campaigns w)
            | Some msg \<Rightarrow> err = DbError msg \<and> campaigns w' = campaigns w)"
    unfolding res(1) using e2 res(2) k
    by (cases r2) (auto simp: execute_Inr_iff execute_Inl_iff updateCampaign_def
        setCampaignFailed_def)
  from tryDispatch_Inl_rows [OF t'] obtain old rows where pr:
    "communication_log w1 = old @ rows"
    "list_all2 sameRow (communication_log w) old"
    "(\<forall>m\<in>set (communication_log w). msg_id m < next_log_id w) \<longrightarrow> old = communication_log w"
    "map msg_id rows = [next_log_id w ..< next_log_id w
        + createdCount e (calls w + 2) (length (audienceOf e sid w))]"
    "map msg_customer_id rows
       = map cust_id (take (createdCount e (calls w + 2) (length (audienceOf e sid w)))
                        (audienceOf e sid w))"
    "\<forall>m\<in>set rows. msg_campaign_id m = cid"
    "\<forall>m\<in>set (take (if createdCount e (calls w + 2) (length (audienceOf e sid w))
                          < length (audienceOf e sid w)
                       then 0
                       else settledCount e (calls w + 2 + length (audienceOf e sid w))
                              (length (audienceOf e sid w))) rows).
        msg_status m = MSent \<or> msg_status m = MFailed"
    "\<forall>m\<in>set (drop (if createdCount e (calls w + 2) (length (audienceOf e sid w))
                          < length (audienceOf e sid w)
                       then 0
                       else settledCount e (calls w + 2 + length (audienceOf e sid w))
                              (length (audienceOf e sid w))) rows).
        msg_status m = MPending"
    unfolding partialRecord_def by (elim exE conjE) (rule that)
  show ?thesis
    unfolding Let_def
    apply (rule exI [of _ err0], rule exI [of _ w1], rule exI [of _ old], rule exI [of _ rows])
    apply (intro conjI)
    subgoal by (rule t')
    subgoal by (rule cs)
    subgoal by (rule lg)
    subgoal unfolding lg by (rule pr(1))
    subgoal by (rule pr(2))
    subgoal by (rule pr(3))
    subgoal by (rule pr(4))
    subgoal by (rule pr(5))
    subgoal by (rule pr(6))
    subgoal by (rule pr(7))
    subgoal by (rule pr(8))
    done
qed

theorem dispatch_failure_marks_failed_witness:
  "fst (sendCampaignMessages (exampleEnv (faultAt 3)) 1 1 ''Hello'' dispatchWorld)
     = Inl (DbError ''connection lost'') \<and>
   map camp_status
     (campaigns (snd (sendCampaignMessages (exampleEnv (faultAt 3)) 1 1 ''Hello'' dispatchWorld)))
     = [CFailed, CSent] \<and>
   map (\<lambda>m. (msg_campaign_id m, msg_customer_id m, msg_status m))
     (communication_log
        (snd (sendCampaignMessages (exampleEnv (faultAt 3)) 1 1 ''Hello'' dispatchWorld)))
     = [(9, 5, MDelivered), (1, 5, MPending)] \<and>
   fst (sendCampaignMessages (exampleEnv (downFrom 5)) 1 1 ''Hello'' dispatchWorld)
     = Inl (DbError ''connection lost'') \<and>
   map camp_status
     (campaigns (snd (sendCampaignMessages (exampleEnv (downFrom 5)) 1 1 ''Hello'' dispatchWorld)))
     = [CSending, CSent] \<and>
   map (\<lambda>m. (msg_campaign_id m, msg_customer_id m, msg_status m = MPending))
     (communication_log
        (snd (sendCampaignMessages (exampleEnv (downFrom 5)) 1 1 ''Hello'' dispatchWorld)))
     = [(9, 5, False), (1, 5, False), (1, 6, True)]"
proof -
  have wf: "\<forall>m\<in>set (communication_log dispatchWorld). msg_id m < next_log_id dispatchWorld"
    by (simp add: dispatchWorld_def message_def)
  have old: "map (\<lambda>m. (msg_campaign_id m, msg_customer_id m, msg_status m))
               (communication_log dispatchWorld) = [(9, 5, MDelivered)]"
    by (simp add: dispatchWorld_def message_def)
  have cw: "campaigns dispatchWorld = [campaign 1 CSending, campaign 9 CSent]"
    by (simp add: dispatchWorld_def)
  note compiler = buildSegmentQuery_def processRule.simps isComposite_def processLeaf_def
    switchField_def
  have first: "fst (sendCampaignMessages (exampleEnv (faultAt 3)) 1 1 ''Hello'' dispatchWorld)
       = Inl (DbError ''connection lost'') \<and>
     map camp_status
       (campaigns (snd (sendCampaignMessages (exampleEnv (faultAt 3)) 1 1 ''Hello'' dispatchWorld)))
       = [CFailed, CSent] \<and>
     map (\<lambda>m. (msg_campaign_id m, msg_customer_id m, msg_status m))
       (communication_log
          (snd (sendCampaignMessages (exampleEnv (faultAt 3)) 1 1 ''Hello'' dispatchWorld)))
       = [(9, 5, MDelivered), (1, 5, MPending)]"
  proof -
    let ?e = "exampleEnv (faultAt 3)"
    let ?r = "sendCampaignMessages ?e 1 1 ''Hello'' dispatchWorld"
    let ?t = "tryDispatch ?e 1 1 ''Hello'' dispatchWorld"
    have f: "fst ?r = Inl (DbError ''connection lost'')"
      by (simp add: dispatch_defs)
    then have h: "?r = (Inl (DbError ''connection lost''), snd ?r)"
      by (metis prod.collapse)
    have c: "calls (snd ?t) = 4"
      by (simp add: dispatch_defs)
    have au: "audienceOf ?e 1 dispatchWorld = [alice, bob]"
      by (simp add: audienceOf_def exampleEnv_def faultAt_def dispatchWorld_def compiler)
    from dispatch_failure_marks_failed [OF h] obtain err0 w1 old rows where
      t: "?t = (Inl err0, w1)"
      and k: "(case faults ?e (calls w1) of
                None \<Rightarrow> DbError ''connection lost'' = err0 \<and>
                  campaigns (snd ?r)
                    = map (\<lambda>c. if camp_id c = 1 then c\<lparr>camp_status := CFailed\<rparr> else c)
                        (campaigns dispatchWorld)
              | Some msg \<Rightarrow> DbError ''connection lost'' = DbError msg \<and>
                  campaigns (snd ?r) = campaigns dispatchWorld)"
      and "communication_log (snd ?r) = communication_log w1"
      and lg: "communication_log (snd ?r) = old @ rows"
      and "list_all2 sameRow (communication_log dispatchWorld) old"
      and o: "(\<forall>m\<in>set (communication_log dispatchWorld). msg_id m < next_log_id dispatchWorld)
                \<longrightarrow> old = communication_log dispatchWorld"
      and rw: "(let audience = audienceOf ?e 1 dispatchWorld;
                    created = createdCount ?e (calls dispatchWorld + 2) (length audience);
                    attempted = (if created < length audience then 0
                                 else settledCount ?e (calls dispatchWorld + 2 + length audience)
                                        (length audience))
                in map msg_id rows = [next_log_id dispatchWorld ..< next_log_id dispatchWorld + created] \<and>
                   map msg_customer_id rows = map cust_id (take created audience) \<and>
                   (\<forall>m\<in>set rows. msg_campaign_id m = 1) \<and>
                   (\<forall>m\<in>set (take attempted rows). msg_status m = MSent \<or> msg_status m = MFailed) \<and>
                   (\<forall>m\<in>set (drop attempted rows). msg_status m = MPending))"
      by (elim exE conjE) (rule that)
    from t c have "calls w1 = 4" by simp
    then have "faults ?e (calls w1) = None" by (simp add: exampleEnv_def faultAt_def)
    with k have "campaigns (snd ?r)
                    = map (\<lambda>c. if camp_id c = 1 then c\<lparr>camp_status := CFailed\<rparr> else c)
                        (campaigns dispatchWorld)"
      by simp
    then have cs: "map camp_status (campaigns (snd ?r)) = [CFailed, CSent]"
      by (simp add: cw campaign_def)
    from rw [unfolded Let_def au]
    have "map msg_id rows = [2] \<and> map msg_customer_id rows = [5] \<and>
          (\<forall>m\<in>set rows. msg_campaign_id m = 1) \<and> (\<forall>m\<in>set rows. msg_status m = MPending)"
      by (simp add: exampleEnv_def faultAt_def dispatchWorld_def alice_def)
    then have "map (\<lambda>m. (msg_campaign_id m, msg_customer_id m, msg_status m)) rows
                 = [(1, 5, MPending)]"
      by (auto simp: map_eq_Cons_conv)
    moreover from o wf have "old = communication_log dispatchWorld" by simp
    ultimately have "map (\<lambda>m. (msg_campaign_id m, msg_customer_id m, msg_status m))
         (communication_log (snd ?r)) = [(9, 5, MDelivered), (1, 5, MPending)]"
      unfolding lg using old by simp
    with f cs show ?thesis by (simp only: simp_thms)
  qed
  have second: "fst (sendCampaignMessages (exampleEnv (downFrom 5)) 1 1 ''Hello'' dispatchWorld)
       = Inl (DbError ''connection lost'') \<and>
     map camp_status
       (campaigns (snd (sendCampaignMessages (exampleEnv (downFrom 5)) 1 1 ''Hello'' dispatchWorld)))
       = [CSending, CSent] \<and>
     map (\<lambda>m. (msg_campaign_id m, msg_customer_id m, msg_status m = MPending))
       (communication_log
          (snd (sendCampaignMessages (exampleEnv (downFrom 5)) 1 1 ''Hello'' dispatchWorld)))
       = [(9, 5, False), (1, 5, False), (1, 6, True)]"
  proof -
    let ?e = "exampleEnv (downFrom 5)"
    let ?r = "sendCampaignMessages ?e 1 1 ''Hello'' dispatchWorld"
    let ?t = "tryDispatch ?e 1 1 ''Hello'' dispatchWorld"
    have f: "fst ?r = Inl (DbError ''connection lost'')"
      by (simp add: dispatch_defs)
    then have h: "?r = (Inl (DbError ''connection lost''), snd ?r)"
      by (metis prod.collapse)
    have c: "calls (snd ?t) = 7"
      by (simp add: dispatch_defs)
    have au: "audienceOf ?e 1 dispatchWorld = [alice, bob]"
      by (simp add: audienceOf_def exampleEnv_def downFrom_def dispatchWorld_def compiler)
    from dispatch_failure_marks_failed [OF h] obtain err0 w1 old rows where
      t: "?t = (Inl err0, w1)"
      and k: "(case faults ?e (calls w1) of
                None \<Rightarrow> DbError ''connection lost'' = err0 \<and>
                  campaigns (snd ?r)
                    = map (\<lambda>c. if camp_id c = 1 then c\<lparr>camp_status := CFailed\<rparr> else c)
                        (campaigns dispatchWorld)
              | Some msg \<Rightarrow> DbError ''connection lost'' = DbError msg \<and>
                  campaigns (snd ?r) = campaigns dispatchWorld)"
      and "communication_log (snd ?r) = communication_log w1"
      and lg: "communication_log (snd ?r) = old @ rows"
      and "list_all2 sameRow (communication_log dispatchWorld) old"
      and o: "(\<forall>m\<in>set (communication_log dispatchWorld). msg_id m < next_log_id dispatchWorld)
                \<longrightarrow> old = communication_log dispatchWorld"
      and rw: "(let audience = audienceOf ?e 1 dispatchWorld;
                    created = createdCount ?e (calls dispatchWorld + 2) (length audience);
                    attempted = (if created < length audience then 0
                                 else settledCount ?e (calls dispatchWorld + 2 + length audience)
                                        (length audience))
                in map msg_id rows = [next_log_id dispatchWorld ..< next_log_id dispatchWorld + created] \<and>
                   map msg_customer_id rows = map cust_id (take created audience) \<and>
                   (\<forall>m\<in>set rows. msg_campaign_id m = 1) \<and>
                   (\<forall>m\<in>set (take attempted rows). msg_status m = MSent \<or> msg_status m = MFailed) \<and>
                   (\<forall>m\<in>set (drop attempted rows). msg_status m = MPending))"
      by (elim exE conjE) (rule that)
    from t c have "calls w1 = 7" by simp
    then have "faults ?e (calls w1) = Some ''connection lost''"
      by (simp add: exampleEnv_def downFrom_def)
    with k have "campaigns (snd ?r) = campaigns dispatchWorld"
      by simp
    then have cs: "map camp_status (campaigns (snd ?r)) = [CSending, CSent]"
      by (simp add: cw campaign_def)
    from rw [unfolded Let_def au]
    have "map msg_id rows = [2, 3] \<and> map msg_customer_id rows = [5, 6] \<and>
          (\<forall>m\<in>set rows. msg_campaign_id m = 1) \<and>
          (\<forall>m\<in>set (take 1 rows). msg_status m = MSent \<or> msg_status m = MFailed) \<and>
          (\<forall>m\<in>set (drop 1 rows). msg_status m = MPending)"
      by (simp add: exampleEnv_def downFrom_def dispatchWorld_def alice_def bob_def)
    then have "map (\<lambda>m. (msg_campaign_id m, msg_customer_id m, msg_status m = MPending)) rows
                 = [(1, 5, False), (1, 6, True)]"
      by (auto simp: map_eq_Cons_conv)
    moreover from o wf have "old = communication_log dispatchWorld" by simp
    moreover have "map (\<lambda>m. (msg_campaign_id m, msg_customer_id m, msg_status m = MPending))
               (communication_log dispatchWorld) = [(9, 5, False)]"
      by (simp add: dispatchWorld_def message_def)
    ultimately have "map (\<lambda>m. (msg_campaign_id m, msg_customer_id m, msg_status m = MPending))
         (communication_log (snd ?r)) = [(9, 5, False), (1, 5, False), (1, 6, True)]"
      unfolding lg by simp
    with f cs show ?thesis by (simp only: simp_thms)
  qed
  from first second show ?thesis by (simp only: simp_thms)
qed

subsection \<open>Claim C8\<close>

text \<open>
  C8. A composite node (its \<open>operator\<close> is AND or OR) compiles every element of its
  \<open>conditions\<close> array: it compiles exactly when all children do, and raises a TypeError
  otherwise, as it does when \<open>conditions\<close> is not an array. Its expression is obtained from
  the children's expressions by dropping exactly the empty ones and putting the survivors,
  separated by \<open>" AND "\<close> / \<open>" OR "\<close>, inside one pair of parentheses; with no survivor it is
  the empty expression. Its parameters are the children's parameters, concatenated in order.
\<close>

theorem composite_compilation:
  assumes "jsprop rule ''operator'' = JStr oper"
    and "oper = ''AND'' \<or> oper = ''OR''"
  shows "buildSegmentQuery rule =
     (case jsprop rule ''conditions'' of
        JArr cs \<Rightarrow>
          (if \<forall>c\<in>set cs. \<exists>res. buildSegmentQuery c = Inr res
           then Inr \<lparr>query =
                       (case filter (\<lambda>x. x \<noteq> []) (map compiledQuery cs) of
                          [] \<Rightarrow> []
                        | x # xs \<Rightarrow>
                            ''('' @ x @ concat (map (\<lambda>y. '' '' @ oper @ '' '' @ y) xs) @ '')''),
                     params = concat (map compiledParams cs)\<rparr>
           else Inl TypeError)
      | _ \<Rightarrow> Inl TypeError)"
proof -
  from assms have comp: "isComposite rule" by (auto simp: isComposite_def)
  from assms(1) have ot: "operatorText rule = oper" by (simp add: operatorText_def)
  show ?thesis
  proof (cases "\<exists>cs. jsprop rule ''conditions'' = JArr cs")
    case True
    then obtain cs where cs: "jsprop rule ''conditions'' = JArr cs" ..
    then have co: "conditionsOf rule = Inr cs" by (simp add: conditionsOf_def)
    have q: "map compiledQuery cs = map ruleQuery cs"
      and p: "map compiledParams cs = map rulePushed cs"
      by (simp_all add: compiledQuery_eq compiledParams_eq)
    have ok: "(\<exists>res. buildSegmentQuery c = Inr res) \<longleftrightarrow> \<not> isl (processRule c [])" for c
      using isl_buildSegmentQuery [of c] by (cases "buildSegmentQuery c") auto
    show ?thesis
    proof (cases "\<forall>c\<in>set cs. \<not> isl (processRule c [])")
      case True
      with processRule_composite [OF comp co]
      have "processRule rule [] =
          Inr (compositeText oper (map ruleQuery cs), concat (map rulePushed cs))"
        by (simp add: ot)
      with True show ?thesis
        by (simp add: buildSegmentQuery_def [of rule] cs ok q p compositeText_eq)
    next
      case False
      with processRule_composite [OF comp co] obtain e where e: "processRule rule [] = Inl e"
        by auto
      then have "e = TypeError" by (rule processRule_TypeError)
      with e False show ?thesis
        by (simp add: buildSegmentQuery_def [of rule] cs ok)
    qed
  next
    case False
    then have co: "conditionsOf rule = Inl TypeError"
      by (cases "jsprop rule ''conditions''") (simp_all add: conditionsOf_def)
    with comp have "processRule rule [] = Inl TypeError"
      by (simp add: processRule.simps [of rule] isComposite_not_nullish)
    with False show ?thesis
      by (cases "jsprop rule ''conditions''") (simp_all add: buildSegmentQuery_def)
  qed
qed

theorem composite_compilation_witness:
  "buildSegmentQuery
     (JObj [(''operator'', JStr ''AND''), (''conditions'', JArr
               [JObj [(''field'', JStr ''status''), (''operator'', JStr ''equals''),
                      (''value'', JStr ''active'')],
                JObj [(''field'', JStr ''status''), (''operator'', JStr ''between''),
                      (''value'', JNum 1)],
                JObj [(''field'', JStr ''total_spent''), (''operator'', JStr ''greater_than''),
                      (''value'', JNum 10000)]])])
   = Inr \<lparr>query = ''(status = ? AND total_spent > ?)'',
           params = [Raw (JStr ''active''), ParseFloat (JNum 10000)]\<rparr> \<and>
   buildSegmentQuery
     (JObj [(''operator'', JStr ''OR''), (''conditions'', JArr
               [JObj [(''field'', JStr ''status''), (''operator'', JStr ''equals''),
                      (''value'', JStr ''active'')],
                JObj [(''field'', JStr ''total_spent''), (''operator'', JStr ''greater_than''),
                      (''value'', JNum 10000)]])])
   = Inr \<lparr>query = ''(status = ? OR total_spent > ?)'',
           params = [Raw (JStr ''active''), ParseFloat (JNum 10000)]\<rparr> \<and>
   buildSegmentQuery
     (JObj [(''operator'', JStr ''OR''), (''conditions'', JArr
               [JObj [(''field'', JStr ''status''), (''operator'', JStr ''between''),
                      (''value'', JNum 1)]])])
   = Inr \<lparr>query = [], params = []\<rparr> \<and>
   buildSegmentQuery
     (JObj [(''operator'', JStr ''AND''), (''conditions'', JStr ''status'')])
   = Inl TypeError \<and>
   buildSegmentQuery
     (JObj [(''operator'', JStr ''AND''), (''conditions'', JArr
               [JObj [(''field'', JStr ''status''), (''operator'', JStr ''equals''),
                      (''value'', JStr ''active'')],
                JNull])])
   = Inl TypeError"
proof -
  let ?a = "JObj [(''field'', JStr ''status''), (''operator'', JStr ''equals''),
                  (''value'', JStr ''active'')]"
  let ?b = "JObj [(''field'', JStr ''status''), (''operator'', JStr ''between''),
                  (''value'', JNum 1)]"
  let ?c = "JObj [(''field'', JStr ''total_spent''), (''operator'', JStr ''greater_than''),
                  (''value'', JNum 10000)]"
  have a: "buildSegmentQuery ?a = Inr \<lparr>query = ''status = ?'', params = [Raw (JStr ''active'')]\<rparr>"
    by (simp add: buildSegmentQuery_def processRule.simps isComposite_def processLeaf_def
        switchField_def)
  have b: "buildSegmentQuery ?b = Inr \<lparr>query = [], params = []\<rparr>"
    by (simp add: buildSegmentQuery_def processRule.simps isComposite_def processLeaf_def
        switchField_def)
  have c: "buildSegmentQuery ?c
             = Inr \<lparr>query = ''total_spent > ?'', params = [ParseFloat (JNum 10000)]\<rparr>"
    by (simp add: buildSegmentQuery_def processRule.simps isComposite_def processLeaf_def
        switchField_def)
  have n: "buildSegmentQuery JNull = Inl TypeError"
    by (simp add: buildSegmentQuery_def processRule.simps)
  note children = a b c n compiledQuery_def compiledParams_def
  have 1: "buildSegmentQuery (JObj [(''operator'', JStr ''AND''), (''conditions'', JArr [?a, ?b, ?c])])
      = Inr \<lparr>query = ''(status = ? AND total_spent > ?)'',
              params = [Raw (JStr ''active''), ParseFloat (JNum 10000)]\<rparr>"
    using composite_compilation
      [of "JObj [(''operator'', JStr ''AND''), (''conditions'', JArr [?a, ?b, ?c])]" "''AND''"]
    by (simp add: children)
  have 2: "buildSegmentQuery (JObj [(''operator'', JStr ''OR''), (''conditions'', JArr [?a, ?c])])
      = Inr \<lparr>query = ''(status = ? OR total_spent > ?)'',
              params = [Raw (JStr ''active''), ParseFloat (JNum 10000)]\<rparr>"
    using composite_compilation
      [of "JObj [(''operator'', JStr ''OR''), (''conditions'', JArr [?a, ?c])]" "''OR''"]
    by (simp add: children)
  have 3: "buildSegmentQuery (JObj [(''operator'', JStr ''OR''), (''conditions'', JArr [?b])])
      = Inr \<lparr>query = [], params = []\<rparr>"
    using composite_compilation
      [of "JObj [(''operator'', JStr ''OR''), (''conditions'', JArr [?b])]" "''OR''"]
    by (simp add: children)
  have 4: "buildSegmentQuery (JObj [(''operator'', JStr ''AND''), (''conditions'', JStr ''status'')])
      = Inl TypeError"
    using composite_compilation
      [of "JObj [(''operator'', JStr ''AND''), (''conditions'', JStr ''status'')]" "''AND''"]
    by simp
  have 5: "buildSegmentQuery (JObj [(''operator'', JStr ''AND''), (''conditions'', JArr [?a, JNull])])
      = Inl TypeError"
    using composite_compilation
      [of "JObj [(''operator'', JStr ''AND''), (''conditions'', JArr [?a, JNull])]" "''AND''"]
    by (simp add: children)
  from 1 2 3 4 5 show ?thesis by (simp only: simp_thms)
qed

subsection \<open>Claim C9\<close>




subsection \<open>Claim C10\<close>

text \<open>
  C10. A leaf with field \<open>last_visit\<close> and operator \<open>is_null\<close> compiles to the empty
  expression when it has no \<open>value\<close> (the guard \<open>value === undefined\<close> runs before the
  switch), and to \<open>last_visit IS NULL\<close> as soon as some defined value, even \<open>null\<close>, is
  present. It binds no parameter either way.
\<close>

theorem is_null_needs_defined_value:
  "jsprop rule ''field'' = JStr ''last_visit'' \<Longrightarrow>
   jsprop rule ''operator'' = JStr ''is_null'' \<Longrightarrow>
   buildSegmentQuery rule =
     Inr \<lparr>query = (if jsprop rule ''value'' = JUndefined then [] else ''last_visit IS NULL''),
          params = []\<rparr>"
proof -
  assume f: "jsprop rule ''field'' = JStr ''last_visit''"
    and o: "jsprop rule ''operator'' = JStr ''is_null''"
  from f have n: "\<not> nullish rule" by (cases rule) simp_all
  from o have c: "\<not> isComposite rule" by (simp add: isComposite_def)
  from n c have "processRule rule [] = processLeaf rule []"
    by (simp add: processRule.simps [of rule])
  with f o show ?thesis
    by (simp add: buildSegmentQuery_def processLeaf_def switchField_def)
qed

theorem is_null_needs_defined_value_witness:
  "buildSegmentQuery (JObj [(''field'', JStr ''last_visit''), (''operator'', JStr ''is_null'')])
     = Inr \<lparr>query = [], params = []\<rparr> \<and>
   buildSegmentQuery (JObj [(''field'', JStr ''last_visit''), (''operator'', JStr ''is_null''),
                            (''value'', JBool True)])
     = Inr \<lparr>query = ''last_visit IS NULL'', params = []\<rparr>"
  using is_null_needs_defined_value
      [of "JObj [(''field'', JStr ''last_visit''), (''operator'', JStr ''is_null'')]"]
    is_null_needs_defined_value
      [of "JObj [(''field'', JStr ''last_visit''), (''operator'', JStr ''is_null''),
                 (''value'', JBool True)]"]
  by simp

end
